theory Spec2Isabelle
  imports Main
begin

section \<open>Text, bytes and JSON values\<close>

text \<open>
  The client of \<^verbatim>\<open>example_client.py\<close> works on three kinds of data: Python
  \<^verbatim>\<open>str\<close> (a sequence of Unicode code points), Python \<^verbatim>\<open>bytes\<close>
  and the values that \<^verbatim>\<open>json.dumps\<close> writes and \<^verbatim>\<open>json.loads\<close>
  builds. A \<^verbatim>\<open>str\<close> is a list of code points (natural numbers), \<^verbatim>\<open>bytes\<close>
  is a list of 8-bit characters, so the two cannot be confused. \<open>ascii\<close> turns the
  characters of a literal into code points.

  The code points that the definitions name by their numbers: 8 backspace, 9 tab,
  10 line feed, 12 form feed, 13 carriage return, 32 space, 34 the double quote, 43 plus,
  44 comma, 45 minus, 46 full stop, 47 slash, 48 to 57 the digits, 58 colon, 69 \<^verbatim>\<open>E\<close>,
  91 and 93 the square brackets, 92 backslash, 98 \<^verbatim>\<open>b\<close>, 101 \<^verbatim>\<open>e\<close>,
  102 \<^verbatim>\<open>f\<close>, 110 \<^verbatim>\<open>n\<close>, 114 \<^verbatim>\<open>r\<close>, 116 \<^verbatim>\<open>t\<close>, 117 \<^verbatim>\<open>u\<close>,
  123 and 125 the braces, 55296 to 57343 the surrogates (the first 1024 of them high, the
  others low), 65279 the byte order mark, 1114112 the first number that is no code point.
\<close>

type_synonym str = "nat list"
type_synonym bytes = string

definition ascii :: "string \<Rightarrow> str" where
  "ascii s = map of_char s"

text \<open>
  A \<^verbatim>\<open>dict\<close> keeps its insertion order, which \<^verbatim>\<open>json.dumps\<close> follows,
  so it is an association list. A float is kept as the characters of its literal
  (the number token it was read from, or \<^verbatim>\<open>NaN\<close>, \<^verbatim>\<open>Infinity\<close>,
  \<^verbatim>\<open>-Infinity\<close>): the arithmetic of floats plays no part in the client.
  \<open>json_dumps\<close> writes that literal, as Python does when it is the \<^verbatim>\<open>repr\<close> of
  the float; the theorems that read a document back leave floats out.
\<close>

datatype json =
    JNull
  | JBool bool
  | JInt int
  | JFloat string
  | JStr str
  | JArr "json list"
  | JObj "(str \<times> json) list"

subsection \<open>\<^verbatim>\<open>str(int)\<close>\<close>

fun digits :: "nat \<Rightarrow> str" where
  "digits n = (if n < 10 then [48 + n] else digits (n div 10) @ [48 + n mod 10])"

declare digits.simps [simp del]

definition str_int :: "int \<Rightarrow> str" where
  "str_int i = (if i < 0 then 45 # digits (nat (- i)) else digits (nat i))"

subsection \<open>\<^verbatim>\<open>json.dumps\<close> with its default arguments\<close>

text \<open>
  The defaults are \<^verbatim>\<open>ensure_ascii=True\<close> and the separators \<^verbatim>\<open>", "\<close> and
  \<^verbatim>\<open>": "\<close>. Every character outside the printable ASCII range, the quote and the
  backslash are escaped; a code point beyond the basic plane becomes a surrogate pair.
\<close>

definition hexdigit :: "nat \<Rightarrow> nat" where
  "hexdigit d = (if d < 10 then 48 + d else 87 + d)"

definition hex4 :: "nat \<Rightarrow> str" where
  "hex4 n = [hexdigit (n div 4096 mod 16), hexdigit (n div 256 mod 16),
             hexdigit (n div 16 mod 16), hexdigit (n mod 16)]"

definition uescape :: "nat \<Rightarrow> str" where
  "uescape n = [92, 117] @ hex4 n"

definition escape_char :: "nat \<Rightarrow> str" where
  "escape_char c =
     (if c = 34 then [92, 34]
      else if c = 92 then [92, 92]
      else if c = 10 then [92, 110]
      else if c = 13 then [92, 114]
      else if c = 9 then [92, 116]
      else if c = 8 then [92, 98]
      else if c = 12 then [92, 102]
      else if 32 \<le> c \<and> c \<le> 126 then [c]
      else if c < 65536 then uescape c
      else uescape (55296 + (c - 65536) div 1024 mod 1024)
         @ uescape (56320 + (c - 65536) mod 1024))"

definition encode_basestring_ascii :: "str \<Rightarrow> str" where
  "encode_basestring_ascii s = [34] @ concat (map escape_char s) @ [34]"

fun json_dumps :: "json \<Rightarrow> str"
  and dumps_items :: "json list \<Rightarrow> str"
  and dumps_members :: "(str \<times> json) list \<Rightarrow> str" where
  "json_dumps JNull = ascii ''null''"
| "json_dumps (JBool b) = (if b then ascii ''true'' else ascii ''false'')"
| "json_dumps (JInt i) = str_int i"
| "json_dumps (JFloat lit) = ascii lit"
| "json_dumps (JStr s) = encode_basestring_ascii s"
| "json_dumps (JArr xs) = [91] @ dumps_items xs @ [93]"
| "json_dumps (JObj kvs) = [123] @ dumps_members kvs @ [125]"
| "dumps_items [] = []"
| "dumps_items [x] = json_dumps x"
| "dumps_items (x # y # ys) = json_dumps x @ [44, 32] @ dumps_items (y # ys)"
| "dumps_members [] = []"
| "dumps_members [(k, v)] = encode_basestring_ascii k @ [58, 32] @ json_dumps v"
| "dumps_members ((k, v) # kv # kvs) =
     encode_basestring_ascii k @ [58, 32] @ json_dumps v @ [44, 32] @ dumps_members (kv # kvs)"

subsection \<open>UTF-8: \<^verbatim>\<open>str.encode()\<close> and \<^verbatim>\<open>bytes.decode()\<close>\<close>

datatype error =
    Exception str
  | OSError str
  | JSONDecodeError
  | UnicodeDecodeError
  | UnicodeEncodeError

text \<open>
  \<open>Exception msg\<close> is \<^verbatim>\<open>raise Exception(msg)\<close> of the client itself;
  \<open>OSError msg\<close> is what the socket library raises; the other three are raised by
  \<^verbatim>\<open>json.loads\<close>, \<^verbatim>\<open>bytes.decode\<close> and \<^verbatim>\<open>str.encode\<close>.
\<close>

definition is_surrogate :: "nat \<Rightarrow> bool" where
  "is_surrogate c \<longleftrightarrow> 55296 \<le> c \<and> c \<le> 57343"

definition byte :: "nat \<Rightarrow> char" where
  "byte n = char_of n"

definition utf8_char :: "nat \<Rightarrow> bytes" where
  "utf8_char c =
     (if c < 128 then [byte c]
      else if c < 2048 then [byte (192 + c div 64), byte (128 + c mod 64)]
      else if c < 65536 then
        [byte (224 + c div 4096), byte (128 + c div 64 mod 64), byte (128 + c mod 64)]
      else
        [byte (240 + c div 262144), byte (128 + c div 4096 mod 64),
         byte (128 + c div 64 mod 64), byte (128 + c mod 64)])"

definition utf8 :: "str \<Rightarrow> bytes" where
  "utf8 s = concat (map utf8_char s)"

definition encode :: "str \<Rightarrow> error + bytes" where
  "encode s =
     (if \<exists>c \<in> set s. is_surrogate c \<or> 1114112 \<le> c then Inl UnicodeEncodeError
      else Inr (utf8 s))"

definition cont :: "char \<Rightarrow> bool" where
  "cont b \<longleftrightarrow> 128 \<le> (of_char b :: nat) \<and> (of_char b :: nat) \<le> 191"

definition low6 :: "char \<Rightarrow> nat" where
  "low6 b = of_char b - 128"

fun utf8_decode :: "bytes \<Rightarrow> str option" where
  "utf8_decode [] = Some []"
| "utf8_decode (b # bs) =
     (let n = (of_char b :: nat) in
      if n < 128 then map_option (Cons n) (utf8_decode bs)
      else if 194 \<le> n \<and> n \<le> 223 then
        (case bs of
           b1 # r \<Rightarrow>
             if cont b1 then map_option (Cons ((n - 192) * 64 + low6 b1)) (utf8_decode r)
             else None
         | _ \<Rightarrow> None)
      else if 224 \<le> n \<and> n \<le> 239 then
        (case bs of
           b1 # b2 # r \<Rightarrow>
             (let c = (n - 224) * 4096 + low6 b1 * 64 + low6 b2 in
              if cont b1 \<and> cont b2 \<and> 2048 \<le> c \<and> \<not> is_surrogate c
              then map_option (Cons c) (utf8_decode r) else None)
         | _ \<Rightarrow> None)
      else if 240 \<le> n \<and> n \<le> 244 then
        (case bs of
           b1 # b2 # b3 # r \<Rightarrow>
             (let c = (n - 240) * 262144 + low6 b1 * 4096 + low6 b2 * 64 + low6 b3 in
              if cont b1 \<and> cont b2 \<and> cont b3 \<and> 65536 \<le> c \<and> c < 1114112
              then map_option (Cons c) (utf8_decode r) else None)
         | _ \<Rightarrow> None)
      else None)"

definition decode :: "bytes \<Rightarrow> error + str" where
  "decode bs = (case utf8_decode bs of None \<Rightarrow> Inl UnicodeDecodeError | Some s \<Rightarrow> Inr s)"

subsection \<open>\<^verbatim>\<open>json.loads\<close>\<close>

text \<open>
  The scanner of CPython's \<^verbatim>\<open>json\<close> module, as a recursive-descent parser that
  returns the value read and the rest of the input. Only space, tab, line feed and carriage
  return are white space. A string ends at the first unescaped quote; a control character
  inside it, an unknown escape and a short or non-hexadecimal \<^verbatim>\<open>\\u\<close> escape
  are errors, and a high surrogate escape followed by a low surrogate escape is one code
  point. The limits of the interpreter (the depth of nesting, the number of digits of an
  integer) are not part of the model.
\<close>

definition is_ws :: "nat \<Rightarrow> bool" where
  "is_ws c \<longleftrightarrow> c = 32 \<or> c = 9 \<or> c = 10 \<or> c = 13"

definition skip_ws :: "str \<Rightarrow> str" where
  "skip_ws s = dropWhile is_ws s"

definition is_digit :: "nat \<Rightarrow> bool" where
  "is_digit c \<longleftrightarrow> 48 \<le> c \<and> c \<le> 57"

definition unhex :: "nat \<Rightarrow> nat option" where
  "unhex c =
     (if 48 \<le> c \<and> c \<le> 57 then Some (c - 48)
      else if 97 \<le> c \<and> c \<le> 102 then Some (c - 87)
      else if 65 \<le> c \<and> c \<le> 70 then Some (c - 55)
      else None)"

fun unhex4 :: "str \<Rightarrow> nat option" where
  "unhex4 [a, b, c, d] =
     (case (unhex a, unhex b, unhex c, unhex d) of
        (Some w, Some x, Some y, Some z) \<Rightarrow> Some (4096 * w + 256 * x + 16 * y + z)
      | _ \<Rightarrow> None)"
| "unhex4 _ = None"

definition unescape :: "nat \<Rightarrow> nat option" where
  "unescape e =
     (if e = 34 \<or> e = 92 \<or> e = 47 then Some e
      else if e = 98 then Some 8
      else if e = 102 then Some 12
      else if e = 110 then Some 10
      else if e = 114 then Some 13
      else if e = 116 then Some 9
      else None)"

definition join_surrogates :: "nat \<Rightarrow> nat \<Rightarrow> nat" where
  "join_surrogates hi lo = 65536 + (hi - 55296) * 1024 + (lo - 56320)"

definition cons_char :: "nat \<Rightarrow> (str \<times> str) option \<Rightarrow> (str \<times> str) option" where
  "cons_char c r = map_option (\<lambda>(s, rest). (c # s, rest)) r"

text \<open>\<open>scanstring\<close> starts behind the opening quote.\<close>

fun scanstring :: "str \<Rightarrow> (str \<times> str) option" where
  "scanstring [] = None"
| "scanstring (c # cs) =
     (if c = 34 then Some ([], cs)
      else if c = 92 then
        (case cs of
           [] \<Rightarrow> None
         | e # r \<Rightarrow>
             if e = 117 then
               (case unhex4 (take 4 r) of
                  None \<Rightarrow> None
                | Some u \<Rightarrow>
                    if 55296 \<le> u \<and> u \<le> 56319 \<and> take 2 (drop 4 r) = [92, 117] then
                      (case unhex4 (take 4 (drop 6 r)) of
                         None \<Rightarrow> None
                       | Some u2 \<Rightarrow>
                           if 56320 \<le> u2 \<and> u2 \<le> 57343
                           then cons_char (join_surrogates u u2) (scanstring (drop 10 r))
                           else cons_char u (scanstring (drop 4 r)))
                    else cons_char u (scanstring (drop 4 r)))
             else
               (case unescape e of
                  None \<Rightarrow> None
                | Some x \<Rightarrow> cons_char x (scanstring r)))
      else if c < 32 then None
      else cons_char c (scanstring cs))"

text \<open>
  A number is \<^verbatim>\<open>-?(0|[1-9][0-9]*)\<close>, then a fraction \<^verbatim>\<open>.[0-9]+\<close> and an
  exponent \<^verbatim>\<open>[eE][-+]?[0-9]+\<close>, each taken only when complete. With neither it is
  an \<^verbatim>\<open>int\<close>, otherwise a \<^verbatim>\<open>float\<close>.
\<close>

definition int_of_digits :: "str \<Rightarrow> nat" where
  "int_of_digits ds = foldl (\<lambda>a d. 10 * a + (d - 48)) 0 ds"

definition match_int :: "str \<Rightarrow> (str \<times> str) option" where
  "match_int s =
     (case s of
        [] \<Rightarrow> None
      | d # r \<Rightarrow>
          if 49 \<le> d \<and> d \<le> 57 then Some (d # takeWhile is_digit r, dropWhile is_digit r)
          else if d = 48 then Some ([48], r)
          else None)"

definition match_frac :: "str \<Rightarrow> str \<times> str" where
  "match_frac s =
     (case s of
        p # d # r \<Rightarrow>
          if p = 46 \<and> is_digit d then (p # d # takeWhile is_digit r, dropWhile is_digit r)
          else ([], s)
      | _ \<Rightarrow> ([], s))"

definition match_exp :: "str \<Rightarrow> str \<times> str" where
  "match_exp s =
     (case s of
        [] \<Rightarrow> ([], s)
      | e # r \<Rightarrow>
          if e = 101 \<or> e = 69 then
            (let sgn = (case r of [] \<Rightarrow> [] | g # _ \<Rightarrow> if g = 43 \<or> g = 45 then [g] else []);
                 r' = drop (length sgn) r
             in if takeWhile is_digit r' = [] then ([], s)
                else (e # sgn @ takeWhile is_digit r', dropWhile is_digit r'))
          else ([], s))"

definition match_number :: "str \<Rightarrow> (json \<times> str) option" where
  "match_number s =
     (let (neg, s0) = (case s of [] \<Rightarrow> (False, s) | c # r \<Rightarrow> if c = 45 then (True, r) else (False, s))
      in case match_int s0 of
           None \<Rightarrow> None
         | Some (ip, r1) \<Rightarrow>
             (let (fp, r2) = match_frac r1; (ep, r3) = match_exp r2
              in if fp = [] \<and> ep = []
                 then Some (JInt (if neg then - int (int_of_digits ip) else int (int_of_digits ip)), r1)
                 else Some (JFloat (map char_of ((if neg then [45] else []) @ ip @ fp @ ep)), r3)))"

text \<open>
  The result of a scan: the value and the rest of the input, a syntax error, or the
  recursion budget of the model used up (\<open>json_loads\<close> gives a budget that always
  suffices, see \<open>json_loads_fuel\<close> below).
\<close>

datatype 'a scan = Scanned 'a str | Syntax | Fuel

text \<open>
  A \<^verbatim>\<open>dict\<close> is filled pair by pair: a key seen again keeps its place and takes
  the new value.
\<close>

fun dict_set :: "(str \<times> json) list \<Rightarrow> str \<Rightarrow> json \<Rightarrow> (str \<times> json) list" where
  "dict_set [] k v = [(k, v)]"
| "dict_set ((k', v') # kvs) k v =
     (if k' = k then (k', v) # kvs else (k', v') # dict_set kvs k v)"

definition dict_of :: "(str \<times> json) list \<Rightarrow> (str \<times> json) list" where
  "dict_of kvs = foldl (\<lambda>d (k, v). dict_set d k v) [] kvs"

definition starts_with :: "string \<Rightarrow> str \<Rightarrow> bool" where
  "starts_with w s \<longleftrightarrow> take (length w) s = ascii w"

fun scan_once :: "nat \<Rightarrow> str \<Rightarrow> json scan"
  and parse_array :: "nat \<Rightarrow> str \<Rightarrow> json list scan"
  and parse_object :: "nat \<Rightarrow> str \<Rightarrow> (str \<times> json) list scan" where
  "scan_once 0 s = Fuel"
| "scan_once (Suc n) s =
     (case s of
        [] \<Rightarrow> Syntax
      | c # r \<Rightarrow>
          if c = 34 then
            (case scanstring r of None \<Rightarrow> Syntax | Some (t, rest) \<Rightarrow> Scanned (JStr t) rest)
          else if c = 123 then
            (case skip_ws r of
               [] \<Rightarrow> Syntax
             | d # r' \<Rightarrow>
                 if d = 125 then Scanned (JObj []) r'
                 else (case parse_object n (d # r') of
                         Scanned kvs rest \<Rightarrow> Scanned (JObj (dict_of kvs)) rest
                       | Syntax \<Rightarrow> Syntax
                       | Fuel \<Rightarrow> Fuel))
          else if c = 91 then
            (case skip_ws r of
               [] \<Rightarrow> Syntax
             | d # r' \<Rightarrow>
                 if d = 93 then Scanned (JArr []) r'
                 else (case parse_array n (d # r') of
                         Scanned xs rest \<Rightarrow> Scanned (JArr xs) rest
                       | Syntax \<Rightarrow> Syntax
                       | Fuel \<Rightarrow> Fuel))
          else if starts_with ''null'' s then Scanned JNull (drop 4 s)
          else if starts_with ''true'' s then Scanned (JBool True) (drop 4 s)
          else if starts_with ''false'' s then Scanned (JBool False) (drop 5 s)
          else if starts_with ''NaN'' s then Scanned (JFloat ''NaN'') (drop 3 s)
          else if starts_with ''Infinity'' s then Scanned (JFloat ''Infinity'') (drop 8 s)
          else if starts_with ''-Infinity'' s then Scanned (JFloat ''-Infinity'') (drop 9 s)
          else (case match_number s of None \<Rightarrow> Syntax | Some (v, rest) \<Rightarrow> Scanned v rest))"
| "parse_array 0 s = Fuel"
| "parse_array (Suc n) s =
     (case scan_once n s of
        Scanned v rest \<Rightarrow>
          (case skip_ws rest of
             [] \<Rightarrow> Syntax
           | d # r \<Rightarrow>
               if d = 93 then Scanned [v] r
               else if d = 44 then
                 (case parse_array n (skip_ws r) of
                    Scanned vs rest' \<Rightarrow> Scanned (v # vs) rest'
                  | Syntax \<Rightarrow> Syntax
                  | Fuel \<Rightarrow> Fuel)
               else Syntax)
      | Syntax \<Rightarrow> Syntax
      | Fuel \<Rightarrow> Fuel)"
| "parse_object 0 s = Fuel"
| "parse_object (Suc n) s =
     (case s of
        [] \<Rightarrow> Syntax
      | q # r \<Rightarrow>
          if q \<noteq> 34 then Syntax
          else
            (case scanstring r of
               None \<Rightarrow> Syntax
             | Some (k, rest) \<Rightarrow>
                 (case skip_ws rest of
                    [] \<Rightarrow> Syntax
                  | colon # r1 \<Rightarrow>
                      if colon \<noteq> 58 then Syntax
                      else
                        (case scan_once n (skip_ws r1) of
                           Scanned v rest2 \<Rightarrow>
                             (case skip_ws rest2 of
                                [] \<Rightarrow> Syntax
                              | d # r3 \<Rightarrow>
                                  if d = 125 then Scanned [(k, v)] r3
                                  else if d = 44 then
                                    (case parse_object n (skip_ws r3) of
                                       Scanned kvs rest' \<Rightarrow> Scanned ((k, v) # kvs) rest'
                                     | Syntax \<Rightarrow> Syntax
                                     | Fuel \<Rightarrow> Fuel)
                                  else Syntax)
                         | Syntax \<Rightarrow> Syntax
                         | Fuel \<Rightarrow> Fuel))))"

text \<open>
  \<^verbatim>\<open>json.loads(s)\<close> for a \<^verbatim>\<open>str\<close>: a leading byte order mark is refused,
  white space around the document is skipped, anything else behind it is an error.
\<close>

definition json_loads :: "str \<Rightarrow> error + json" where
  "json_loads s =
     (if take 1 s = [65279] then Inl JSONDecodeError
      else case scan_once (2 * length s + 1) (skip_ws s) of
             Scanned v rest \<Rightarrow> if skip_ws rest = [] then Inr v else Inl JSONDecodeError
           | Syntax \<Rightarrow> Inl JSONDecodeError
           | Fuel \<Rightarrow> Inl JSONDecodeError)"

section \<open>The socket library and the environment\<close>

text \<open>
  A socket object is open or closed. What a call to the operating system does is not in
  the hands of the client: each operation takes its outcome as an argument, so that every
  theorem holds for every behaviour of the network. On a closed socket object the library
  raises \<^verbatim>\<open>OSError\<close> (bad file descriptor) without asking the operating system.
  \<^verbatim>\<open>send\<close> returns the number of bytes it has taken, which may be fewer than it
  was given; \<^verbatim>\<open>recv\<close> returns the bytes read, none when the peer has closed.
  \<^verbatim>\<open>close\<close> marks the object closed before it releases the descriptor, and
  does nothing on a closed object.
\<close>

datatype pysocket = Socket (closed: bool)

definition EBADF :: error where
  "EBADF = OSError (ascii ''[Errno 9] Bad file descriptor'')"

definition sock_send :: "error + nat \<Rightarrow> pysocket \<Rightarrow> bytes \<Rightarrow> error + nat" where
  "sock_send os s data = (if closed s then Inl EBADF else os)"

definition sock_recv :: "error + bytes \<Rightarrow> pysocket \<Rightarrow> nat \<Rightarrow> error + bytes" where
  "sock_recv os s bufsize = (if closed s then Inl EBADF else os)"

definition sock_close :: "error + unit \<Rightarrow> pysocket \<Rightarrow> (error + unit) \<times> pysocket" where
  "sock_close os s = (if closed s then (Inr (), s) else (os, Socket True))"

text \<open>The lines the client prints to \<^verbatim>\<open>sys.stderr\<close>, and the trace of a run.\<close>

datatype stderr_line =
    Connected_to str int
  | Error_connecting str int error
  | Request_line str
  | Response_line str
  | Error_sending error
  | Disconnected
  | Error_closing error

datatype event =
    Socket_new "error + unit"
  | Socket_connect str int "error + unit"
  | Socket_send bytes "error + nat"
  | Socket_recv nat "error + bytes"
  | Socket_close "error + unit"
  | Print stderr_line

text \<open>What the network does during one call: the outcome of its send and of its receive.\<close>

record net =
  send_result :: "error + nat"
  recv_result :: "error + bytes"

section \<open>The client\<close>

record client =
  host :: str
  port :: int
  verbose :: bool
  socket :: "pysocket option"
  request_id :: int

type_synonym params = "(str \<times> json) list"



text \<open>
  \<^verbatim>\<open>_send_request\<close>. The body of its \<^verbatim>\<open>try\<close> block is \<open>exchange\<close>: it gives
  the result or the exception, and the trace up to there. The handler prints the
  exception and raises it again. The counter is advanced before the \<^verbatim>\<open>try\<close>, so
  the new state is returned on failure as well.
\<close>

definition exchange :: "net \<Rightarrow> bool \<Rightarrow> pysocket \<Rightarrow> str \<Rightarrow> (error + json) \<times> event list" where
  "exchange nw verb s request_json =
     (case encode (request_json @ [10]) of
        Inl e \<Rightarrow> (Inl e, [])
      | Inr data \<Rightarrow>
          (let sent = sock_send (send_result nw) s data; ev1 = [Socket_send data sent] in
           case sent of
             Inl e \<Rightarrow> (Inl e, ev1)
           | Inr _ \<Rightarrow>
               (let rcvd = sock_recv (recv_result nw) s 4096; ev2 = ev1 @ [Socket_recv 4096 rcvd] in
                case rcvd of
                  Inl e \<Rightarrow> (Inl e, ev2)
                | Inr bs \<Rightarrow>
                    (case decode bs of
                       Inl e \<Rightarrow> (Inl e, ev2)
                     | Inr response_json \<Rightarrow>
                         if response_json = [] then
                           (Inl (Exception (ascii ''Server closed connection'')), ev2)
                         else
                           (let ev3 = ev2 @ (if verb then [Print (Response_line response_json)] else []) in
                            case json_loads response_json of
                              Inl e \<Rightarrow> (Inl e, ev3)
                            | Inr response \<Rightarrow> (Inr response, ev3))))))"

definition send_request :: "net \<Rightarrow> client \<Rightarrow> str \<Rightarrow> params option \<Rightarrow> (error + json) \<times> client \<times> event list" where
  "send_request nw c method ps =
     (case socket c of
        None \<Rightarrow> (Inl (Exception (ascii ''Not connected to server'')), c, [])
      | Some s \<Rightarrow>
          (let c' = c\<lparr>request_id := request_id c + 1\<rparr>;
               request = JObj
                 [(ascii ''jsonrpc'', JStr (ascii ''2.0'')),
                  (ascii ''id'', JStr (str_int (request_id c'))),
                  (ascii ''method'', JStr method),
                  (ascii ''params'', JObj (case ps of None \<Rightarrow> [] | Some p \<Rightarrow> if p = [] then [] else p))];
               request_json = json_dumps request;
               ev0 = (if verbose c' then [Print (Request_line request_json)] else [])
           in case exchange nw (verbose c') s request_json of
                (Inl e, ev) \<Rightarrow> (Inl e, c', ev0 @ ev @ [Print (Error_sending e)])
              | (Inr response, ev) \<Rightarrow> (Inr response, c', ev0 @ ev)))"


definition get_entries :: "net \<Rightarrow> client \<Rightarrow> str \<Rightarrow> str option \<Rightarrow> (error + json) \<times> client \<times> event list" where
  "get_entries nw c logger_id level =
     send_request nw c (ascii ''log.getEntries'')
       (Some [(ascii ''loggerId'', JStr logger_id),
              (ascii ''level'', case level of None \<Rightarrow> JNull | Some l \<Rightarrow> JStr l)])"



definition get_capabilities :: "net \<Rightarrow> client \<Rightarrow> (error + json) \<times> client \<times> event list" where
  "get_capabilities nw c = send_request nw c (ascii ''system.capabilities'') None"

text \<open>
  \<^verbatim>\<open>close\<close>: the \<^verbatim>\<open>try\<close> block releases the socket if there is one, the
  handler prints whatever was raised. The field \<^verbatim>\<open>self.socket\<close> is not reset.
\<close>

definition close :: "error + unit \<Rightarrow> client \<Rightarrow> (error + unit) \<times> client \<times> event list" where
  "close os c =
     (let (r, c', ev) =
        (case socket c of
           None \<Rightarrow> (Inr (), c, [])
         | Some s \<Rightarrow>
             (let (res, s') = sock_close os s;
                  c1 = c\<lparr>socket := Some s'\<rparr>;
                  ev1 = (if closed s then [] else [Socket_close os])
              in case res of
                   Inl e \<Rightarrow> (Inl e, c1, ev1)
                 | Inr _ \<Rightarrow> (Inr (), c1, ev1 @ (if verbose c then [Print Disconnected] else []))))
      in case r of
           Inl e \<Rightarrow> (Inr (), c', ev @ [Print (Error_closing e)])
         | Inr u \<Rightarrow> (Inr u, c', ev))"

section \<open>Vocabulary of the properties\<close>

text \<open>
  The request object with a given id, and its frame on the wire: the UTF-8 bytes of its
  JSON text and one line feed.
\<close>

definition envelope :: "int \<Rightarrow> str \<Rightarrow> params \<Rightarrow> json" where
  "envelope i method ps =
     JObj [(ascii ''jsonrpc'', JStr (ascii ''2.0'')), (ascii ''id'', JStr (str_int i)),
           (ascii ''method'', JStr method), (ascii ''params'', JObj ps)]"

definition frame :: "json \<Rightarrow> bytes" where
  "frame request = utf8 (json_dumps request) @ [CHR 0x0A]"

text \<open>The errors by the names the specification gives them.\<close>

definition NotConnectedError :: error where
  "NotConnectedError = Exception (ascii ''Not connected to server'')"

definition ConnectionClosedError :: error where
  "ConnectionClosedError = Exception (ascii ''Server closed connection'')"


fun TransportError :: "error \<Rightarrow> bool" where
  "TransportError (OSError _) = True"
| "TransportError _ = False"

text \<open>
  Reading a trace: the data handed to \<^verbatim>\<open>send\<close>, the bytes that reached the
  connection, the receives, and the operations on the socket as opposed to the printing.
\<close>

fun sent_data :: "event \<Rightarrow> bytes list" where
  "sent_data (Socket_send d r) = [d]"
| "sent_data _ = []"

definition sends :: "event list \<Rightarrow> bytes list" where
  "sends evs = concat (map sent_data evs)"

fun written :: "event \<Rightarrow> bytes" where
  "written (Socket_send d (Inr n)) = take n d"
| "written _ = []"

definition wire :: "event list \<Rightarrow> bytes" where
  "wire evs = concat (map written evs)"

fun is_recv :: "event \<Rightarrow> bool" where
  "is_recv (Socket_recv n r) = True"
| "is_recv _ = False"

fun is_io :: "event \<Rightarrow> bool" where
  "is_io (Print l) = False"
| "is_io _ = True"

definition network_io :: "event list \<Rightarrow> event list" where
  "network_io evs = filter is_io evs"







text \<open>The three parts of what a call gives back.\<close>

abbreviation outcome :: "'a \<times> 'b \<times> 'c \<Rightarrow> 'a" where
  "outcome x \<equiv> fst x"

abbreviation after :: "'a \<times> 'b \<times> 'c \<Rightarrow> 'b" where
  "after x \<equiv> fst (snd x)"

abbreviation trace :: "'a \<times> 'b \<times> 'c \<Rightarrow> 'c" where
  "trace x \<equiv> snd (snd x)"

text \<open>A client as the constructor leaves it, on the default endpoint.\<close>

definition fresh :: client where
  "fresh = \<lparr>host = ascii ''localhost'', port = 3000, verbose = False,
            socket = Some (Socket False), request_id = 0\<rparr>"

section \<open>The round trip through a responder\<close>

text \<open>
  The values for which writing and reading are inverse in this model: every string is
  well-formed Unicode text (code points below \<open>0x110000\<close>, no surrogates), the keys of
  each object are distinct, as those of a \<^verbatim>\<open>dict\<close> are, and there is no float
  (a float is written by \<^verbatim>\<open>repr\<close>, which the model does not have).
\<close>

definition scalar :: "nat \<Rightarrow> bool" where
  "scalar c \<longleftrightarrow> c < 1114112 \<and> \<not> is_surrogate c"

definition valid_str :: "str \<Rightarrow> bool" where
  "valid_str s = list_all scalar s"

fun valid_json :: "json \<Rightarrow> bool"
  and valid_items :: "json list \<Rightarrow> bool"
  and valid_members :: "(str \<times> json) list \<Rightarrow> bool" where
  "valid_json JNull = True"
| "valid_json (JBool b) = True"
| "valid_json (JInt i) = True"
| "valid_json (JFloat lit) = False"
| "valid_json (JStr s) = valid_str s"
| "valid_json (JArr xs) = valid_items xs"
| "valid_json (JObj kvs) = (distinct (map fst kvs) \<and> valid_members kvs)"
| "valid_items [] = True"
| "valid_items (x # xs) = (valid_json x \<and> valid_items xs)"
| "valid_members [] = True"
| "valid_members ((k, v) # kvs) = (valid_str k \<and> valid_json v \<and> valid_members kvs)"

text \<open>
  A request object with any string as its id, and a response object that carries a result.
  \<open>lookup\<close> is the subscript \<^verbatim>\<open>obj[key]\<close> of a \<^verbatim>\<open>dict\<close>.
\<close>

definition request_envelope :: "str \<Rightarrow> str \<Rightarrow> params \<Rightarrow> json" where
  "request_envelope ident method ps =
     JObj [(ascii ''jsonrpc'', JStr (ascii ''2.0'')), (ascii ''id'', JStr ident),
           (ascii ''method'', JStr method), (ascii ''params'', JObj ps)]"

definition result_envelope :: "json \<Rightarrow> json \<Rightarrow> json" where
  "result_envelope ident result =
     JObj [(ascii ''jsonrpc'', JStr (ascii ''2.0'')), (ascii ''id'', ident),
           (ascii ''result'', result)]"

fun lookup :: "str \<Rightarrow> json \<Rightarrow> json option" where
  "lookup k (JObj kvs) = map_of kvs k"
| "lookup k _ = None"

text \<open>
  Modelled from the spec: the stub echo responder of the round-trip property, a test
  double that is not in the source. It reads the request line as the server would
  (\<^verbatim>\<open>json.loads(line.decode())\<close>), takes the id of the request and answers with
  the line of a response that wraps this id and a result.
\<close>

definition echo_responder :: "json \<Rightarrow> bytes \<Rightarrow> bytes option" where
  "echo_responder result line =
     (case decode line of
        Inl e \<Rightarrow> None
      | Inr request_json \<Rightarrow>
          (case json_loads request_json of
             Inl e \<Rightarrow> None
           | Inr request \<Rightarrow>
               (case lookup (ascii ''id'') request of
                  None \<Rightarrow> None
                | Some ident \<Rightarrow>
                    (case encode (json_dumps (result_envelope ident result) @ [10]) of
                       Inl e \<Rightarrow> None
                     | Inr reply \<Rightarrow> Some reply))))"

text \<open>
  Notions of the proofs: what may follow a value in a serialised document, a rest that
  does not go on with a digit, and the characters a serialised value can begin with.
\<close>

definition delim :: "str \<Rightarrow> bool" where
  "delim rest = (case rest of [] \<Rightarrow> True | c # _ \<Rightarrow> c = 44 \<or> c = 93 \<or> c = 125 \<or> is_ws c)"

definition no_digit_next :: "str \<Rightarrow> bool" where
  "no_digit_next rest = (case rest of [] \<Rightarrow> True | c # _ \<Rightarrow> \<not> is_digit c)"

definition starter :: "nat \<Rightarrow> bool" where
  "starter c \<longleftrightarrow> \<not> is_ws c \<and> c \<noteq> 93 \<and> c \<noteq> 125 \<and> c \<noteq> 65279"

section \<open>The serialised request\<close>

lemma byte_LF: "byte 10 = CHR 0x0A"
  unfolding byte_def by code_simp

lemma digits_bound: "c \<in> set (digits n) \<Longrightarrow> 48 \<le> c \<and> c \<le> 57"
proof (induction n rule: digits.induct)
  case (1 n)
  then show ?case
    by (subst (asm) (2) digits.simps) (auto split: if_splits)
qed

lemma str_int_bound: "c \<in> set (str_int i) \<Longrightarrow> 45 \<le> c \<and> c \<le> 57"
  by (auto simp: str_int_def dest: digits_bound split: if_splits)

lemma hexdigit_bound: "d < 16 \<Longrightarrow> 48 \<le> hexdigit d \<and> hexdigit d \<le> 102"
  by (simp add: hexdigit_def)

lemma hex4_bound: "c \<in> set (hex4 n) \<Longrightarrow> 48 \<le> c \<and> c \<le> 102"
proof -
  assume "c \<in> set (hex4 n)"
  then consider "c = hexdigit (n div 4096 mod 16)" | "c = hexdigit (n div 256 mod 16)"
    | "c = hexdigit (n div 16 mod 16)" | "c = hexdigit (n mod 16)"
    unfolding hex4_def by auto
  then show ?thesis
    by cases (simp_all add: hexdigit_bound)
qed

lemma uescape_bound: "c \<in> set (uescape n) \<Longrightarrow> 32 \<le> c \<and> c \<le> 126"
  using hex4_bound [of c n] by (auto simp: uescape_def)

lemma escape_char_bound: "c \<in> set (escape_char x) \<Longrightarrow> 32 \<le> c \<and> c \<le> 126"
  by (auto simp: escape_char_def dest: uescape_bound split: if_splits)

lemma encode_basestring_ascii_bound:
  "c \<in> set (encode_basestring_ascii s) \<Longrightarrow> 32 \<le> c \<and> c \<le> 126"
  by (auto simp: encode_basestring_ascii_def dest: escape_char_bound)

text \<open>Whatever is serialised, the text has no code point that UTF-8 refuses.\<close>

lemma json_dumps_bound:
  "c \<in> set (json_dumps v) \<Longrightarrow> c < 256"
  "c \<in> set (dumps_items xs) \<Longrightarrow> c < 256"
  "c \<in> set (dumps_members kvs) \<Longrightarrow> c < 256"
proof (induction v and xs and kvs arbitrary: c and c and c
    rule: json_dumps_dumps_items_dumps_members.induct)
  case (3 i)
  then show ?case using str_int_bound [of c i] by simp
next
  case (5 s)
  then show ?case using encode_basestring_ascii_bound [of c s] by simp
next
  case (12 k v)
  then show ?case using encode_basestring_ascii_bound [of c k] by auto
next
  case (13 k v kv kvs)
  then show ?case using encode_basestring_ascii_bound [of c k] by auto
qed (auto simp: ascii_def nat_of_char_less_256 split: if_splits)

lemma encode_small: "\<forall>c \<in> set s. c < 256 \<Longrightarrow> encode s = Inr (utf8 s)"
  by (auto simp: encode_def is_surrogate_def)

lemma utf8_append: "utf8 (a @ b) = utf8 a @ utf8 b"
  by (simp add: utf8_def)

lemma utf8_LF: "utf8 [10] = [CHR 0x0A]"
  by (simp add: utf8_def utf8_char_def byte_LF)

lemma encode_json_dumps: "encode (json_dumps v @ [10]) = Inr (frame v)"
proof -
  have "\<forall>c \<in> set (json_dumps v @ [10]). c < 256"
    using json_dumps_bound(1) [of _ v] by auto
  then have "encode (json_dumps v @ [10]) = Inr (utf8 (json_dumps v @ [10]))"
    by (rule encode_small)
  then show ?thesis by (simp add: utf8_append utf8_LF frame_def)
qed

section \<open>One call\<close>

lemma send_request_not_connected:
  "socket c = None \<Longrightarrow> send_request nw c method ps = (Inl NotConnectedError, c, [])"
  by (simp add: send_request_def NotConnectedError_def)

lemma params_or_empty:
  "(case ps of None \<Rightarrow> [] | Some p \<Rightarrow> if p = [] then [] else p) = (case ps of None \<Rightarrow> [] | Some p \<Rightarrow> p)"
  by (simp split: option.splits)

lemma send_request_connected:
  assumes "socket c = Some s"
  shows "send_request nw c method ps =
    (case exchange nw (verbose c) s
            (json_dumps (envelope (request_id c + 1) method (case ps of None \<Rightarrow> [] | Some p \<Rightarrow> p))) of
       (Inl e, ev) \<Rightarrow>
         (Inl e, c\<lparr>request_id := request_id c + 1\<rparr>,
          (if verbose c
           then [Print (Request_line (json_dumps (envelope (request_id c + 1) method (case ps of None \<Rightarrow> [] | Some p \<Rightarrow> p))))]
           else []) @ ev @ [Print (Error_sending e)])
     | (Inr response, ev) \<Rightarrow>
         (Inr response, c\<lparr>request_id := request_id c + 1\<rparr>,
          (if verbose c
           then [Print (Request_line (json_dumps (envelope (request_id c + 1) method (case ps of None \<Rightarrow> [] | Some p \<Rightarrow> p))))]
           else []) @ ev))"
  using assms
  by (simp add: send_request_def Let_def params_or_empty envelope_def [symmetric]
      split: prod.splits sum.splits)

lemma exchange_sends: "sends (snd (exchange nw vb s (json_dumps v))) = [frame v]"
  by (simp add: exchange_def encode_json_dumps sends_def Let_def split: sum.splits)

lemma sends_append: "sends (a @ b) = sends a @ sends b"
  by (simp add: sends_def)

lemma sends_Print: "sends (Print l # evs) = sends evs"
  by (simp add: sends_def)

lemma sends_Nil: "sends [] = []"
  by (simp add: sends_def)


lemma send_request_sends:
  assumes "socket c = Some s"
  shows "sends (trace (send_request nw c method ps))
    = [frame (envelope (request_id c + 1) method (case ps of None \<Rightarrow> [] | Some p \<Rightarrow> p))]"
  using exchange_sends [of nw "verbose c" s
      "envelope (request_id c + 1) method (case ps of None \<Rightarrow> [] | Some p \<Rightarrow> p)"] assms
  by (auto simp: send_request_connected sends_append sends_Print sends_Nil split: prod.splits sum.splits)






lemma exchange_open:
  assumes "\<not> closed s" "send_result nw = Inr n"
  shows "exchange nw vb s (json_dumps v) =
    (case recv_result nw of
       Inl e \<Rightarrow> (Inl e, [Socket_send (frame v) (Inr n), Socket_recv 4096 (recv_result nw)])
     | Inr bs \<Rightarrow>
         (case decode bs of
            Inl e \<Rightarrow> (Inl e, [Socket_send (frame v) (Inr n), Socket_recv 4096 (recv_result nw)])
          | Inr t \<Rightarrow>
              if t = [] then
                (Inl ConnectionClosedError,
                 [Socket_send (frame v) (Inr n), Socket_recv 4096 (recv_result nw)])
              else
                (json_loads t,
                 [Socket_send (frame v) (Inr n), Socket_recv 4096 (recv_result nw)]
                 @ (if vb then [Print (Response_line t)] else []))))"
  using assms
  by (simp add: exchange_def encode_json_dumps sock_send_def sock_recv_def Let_def
      ConnectionClosedError_def split: sum.splits)

lemma network_io_simps:
  "network_io [] = []"
  "network_io (Print l # evs) = network_io evs"
  "network_io (Socket_send d r # evs) = Socket_send d r # network_io evs"
  "network_io (Socket_recv k q # evs) = Socket_recv k q # network_io evs"
  "network_io (a @ b) = network_io a @ network_io b"
  by (simp_all add: network_io_def)

lemma wire_simps:
  "wire [] = []"
  "wire (Print l # evs) = wire evs"
  "wire (Socket_send d (Inr n) # evs) = take n d @ wire evs"
  "wire (Socket_recv k q # evs) = wire evs"
  "wire (a @ b) = wire a @ wire b"
  by (simp_all add: wire_def)

lemma decode_Nil: "decode [] = Inr []"
  by (simp add: decode_def)




lemma utf8_decode_ascii:
  "\<forall>b \<in> set bs. of_char b < (128::nat) \<Longrightarrow> utf8_decode bs = Some (ascii bs)"
  by (induction bs) (simp_all add: ascii_def)

lemma decode_ascii:
  "\<forall>b \<in> set bs. of_char b < (128::nat) \<Longrightarrow> decode bs = Inr (ascii bs)"
  by (simp add: decode_def utf8_decode_ascii)

lemma outcome_open:
  assumes "socket c = Some s" and "\<not> closed s" and "send_result nw = Inr n"
    and "recv_result nw = Inr bs" and "decode bs = Inr t" and "t \<noteq> []"
  shows "outcome (send_request nw c method ps) = json_loads t"
  using assms
  by (simp add: send_request_connected exchange_open split: sum.splits prod.splits)

lemma network_io_open:
  assumes "socket c = Some s" and "\<not> closed s" and "send_result nw = Inr n"
  shows "network_io (trace (send_request nw c method ps)) =
      [Socket_send (frame (envelope (request_id c + 1) method (case ps of None \<Rightarrow> [] | Some p \<Rightarrow> p))) (Inr n),
       Socket_recv 4096 (recv_result nw)]"
  using assms
  by (auto simp: send_request_connected exchange_open network_io_simps
      split: sum.splits prod.splits)

lemma wire_open:
  assumes "socket c = Some s" and "\<not> closed s" and "send_result nw = Inr n"
  shows "wire (trace (send_request nw c method ps)) =
      take n (frame (envelope (request_id c + 1) method (case ps of None \<Rightarrow> [] | Some p \<Rightarrow> p)))"
  using assms
  by (auto simp: send_request_connected exchange_open wire_simps
      split: sum.splits prod.splits)



section \<open>The constructor\<close>



lemma fresh_fields:
  "socket fresh = Some (Socket False)" "request_id fresh = 0" "verbose fresh = False"
  by (simp_all add: fresh_def)

section \<open>Decimal ids\<close>

lemma int_of_digits_snoc: "int_of_digits (ds @ [d]) = 10 * int_of_digits ds + (d - 48)"
  by (simp add: int_of_digits_def)

lemma int_of_digits_digits: "int_of_digits (digits n) = n"
proof (induction n rule: digits.induct)
  case (1 n)
  show ?case
  proof (cases "n < 10")
    case True
    then show ?thesis by (subst digits.simps) (simp add: int_of_digits_def)
  next
    case False
    with 1 show ?thesis by (subst digits.simps) (simp add: int_of_digits_snoc)
  qed
qed

lemma digits_not_Nil: "digits n \<noteq> []"
  by (subst digits.simps) simp

lemma hd_digits: "hd (digits n) \<noteq> 45"
proof -
  have "hd (digits n) \<in> set (digits n)" by (simp add: digits_not_Nil)
  then have "48 \<le> hd (digits n)" using digits_bound by blast
  then show ?thesis by simp
qed



lemma frame_capabilities_1:
  \<open>frame (envelope 1 (ascii ''system.capabilities'') []) =
    ''{"jsonrpc": "2.0", "id": "1", "method": "system.capabilities", "params": {}}\<newline>''\<close>
  by code_simp


lemma frame_get_entries_1:
  \<open>frame (envelope 1 (ascii ''log.getEntries'')
      [(ascii ''loggerId'', JStr (ascii ''myapp'')), (ascii ''level'', JNull)]) =
    ''{"jsonrpc": "2.0", "id": "1", "method": "log.getEntries", "params": {"loggerId": "myapp", "level": null}}\<newline>''\<close>
  by code_simp



section \<open>The scanner always gets enough fuel\<close>

lemma length_skip_ws: "length (skip_ws s) \<le> length s"
  by (simp add: skip_ws_def length_dropWhile_le)

lemma cons_char_Some:
  "cons_char c res = Some (t, rest) \<longleftrightarrow> (\<exists>t'. res = Some (t', rest) \<and> t = c # t')"
  by (cases res) (auto simp: cons_char_def)

lemma scanstring_consumes: "scanstring s = Some (t, rest) \<Longrightarrow> length rest < length s"
proof (induction "length s" arbitrary: s t rest rule: less_induct)
  case less
  note ih = less.hyps
  obtain c cs where s: "s = c # cs" using less.prems by (cases s) auto
  show ?case
  proof (cases "c = 34")
    case True
    with less.prems show ?thesis by (simp add: s)
  next
    case c34: False
    show ?thesis
    proof (cases "c = 92")
      case False
      with c34 less.prems obtain t' where "scanstring cs = Some (t', rest)"
        by (auto simp: s cons_char_Some split: if_splits)
      from ih [OF _ this] show ?thesis by (simp add: s)
    next
      case True
      then obtain e r where cs: "cs = e # r"
        using less.prems c34 by (cases cs) (auto simp: s)
      show ?thesis
      proof (cases "e = 117")
        case False
        then obtain t' where "scanstring r = Some (t', rest)"
          using less.prems c34 True by (auto simp: s cs cons_char_Some split: option.splits)
        from ih [OF _ this] show ?thesis by (simp add: s cs)
      next
        case e: True
        have "(\<exists>t'. scanstring (drop 4 r) = Some (t', rest)) \<or>
              (\<exists>t'. scanstring (drop 10 r) = Some (t', rest))"
          using less.prems c34 True e
          by (auto simp: s cs cons_char_Some split: option.splits if_splits)
        then show ?thesis
        proof (elim disjE exE)
          fix t' assume a: "scanstring (drop 4 r) = Some (t', rest)"
          have "length (drop 4 r) < length s" by (simp add: s cs)
          from ih [OF this a] show ?thesis by (simp add: s cs)
        next
          fix t' assume a: "scanstring (drop 10 r) = Some (t', rest)"
          have "length (drop 10 r) < length s" by (simp add: s cs)
          from ih [OF this a] show ?thesis by (simp add: s cs)
        qed
      qed
    qed
  qed
qed

lemma match_int_consumes: "match_int s = Some (ip, rest) \<Longrightarrow> length rest < length s"
  by (cases s) (auto simp: match_int_def length_dropWhile_le less_Suc_eq_le split: if_splits)

lemma match_frac_consumes: "match_frac s = (fp, rest) \<Longrightarrow> length rest \<le> length s"
proof (cases s)
  case Nil
  then show "match_frac s = (fp, rest) \<Longrightarrow> ?thesis" by (simp add: match_frac_def)
next
  case (Cons p r)
  assume a: "match_frac s = (fp, rest)"
  show ?thesis
  proof (cases r)
    case Nil
    with a Cons show ?thesis by (simp add: match_frac_def)
  next
    case (Cons d r')
    have "length (dropWhile is_digit r') \<le> length r'" by (rule length_dropWhile_le)
    with a \<open>s = p # r\<close> Cons show ?thesis
      by (auto simp: match_frac_def split: if_splits)
  qed
qed

lemma match_exp_consumes: "match_exp s = (ep, rest) \<Longrightarrow> length rest \<le> length s"
proof (cases s)
  case Nil
  then show "match_exp s = (ep, rest) \<Longrightarrow> ?thesis" by (simp add: match_exp_def)
next
  case (Cons e r)
  assume a: "match_exp s = (ep, rest)"
  have "length (dropWhile is_digit (drop k r)) \<le> Suc (length r)" for k
    using length_dropWhile_le [of is_digit "drop k r"] by simp
  with a Cons show ?thesis
    by (auto simp: match_exp_def Let_def split: if_splits)
qed

lemma match_number_consumes: "match_number s = Some (v, rest) \<Longrightarrow> length rest < length s"
proof -
  assume a: "match_number s = Some (v, rest)"
  define s0 where "s0 = (case s of [] \<Rightarrow> s | c # r \<Rightarrow> if c = 45 then r else s)"
  have s0: "length s0 \<le> length s" by (auto simp: s0_def split: list.splits)
  from a obtain ip r1 where mi: "match_int s0 = Some (ip, r1)"
    by (auto simp: match_number_def s0_def split: list.splits if_splits option.splits)
  obtain fp r2 where mf: "match_frac r1 = (fp, r2)" by (cases "match_frac r1")
  obtain ep r3 where me: "match_exp r2 = (ep, r3)" by (cases "match_exp r2")
  have "rest = r1 \<or> rest = r3"
    using a mi mf me
    by (auto simp: match_number_def s0_def split: list.splits if_splits)
  then show ?thesis
    using match_int_consumes [OF mi] match_frac_consumes [OF mf] match_exp_consumes [OF me] s0
    by auto
qed

lemma scan_consumes:
  "scan_once n s = Scanned v rest \<Longrightarrow> length rest < length s"
  "parse_array n s = Scanned xs rest \<Longrightarrow> length rest < length s"
  "parse_object n s = Scanned kvs rest \<Longrightarrow> length rest < length s"
proof (induction n arbitrary: s v rest xs kvs)
  case 0
  {
    case 1 then show ?case by simp
  next
    case 2 then show ?case by simp
  next
    case 3 then show ?case by simp
  }
next
  case (Suc n)
  {
    case 1
    then obtain c r where s: "s = c # r" by (cases s) auto
    have sk: "length (skip_ws r) \<le> length r" by (rule length_skip_ws)
    consider (str) "c = 34" | (obj) "c \<noteq> 34" "c = 123" | (arr) "c \<noteq> 34" "c \<noteq> 123" "c = 91"
      | (other) "c \<noteq> 34" "c \<noteq> 123" "c \<noteq> 91" by blast
    then show ?case
    proof cases
      case str
      with 1 obtain t where "scanstring r = Some (t, rest)"
        by (auto simp: s split: option.splits)
      from scanstring_consumes [OF this] show ?thesis by (simp add: s)
    next
      case obj
      show ?thesis
      proof (cases "skip_ws r")
        case Nil
        with 1 obj show ?thesis by (simp add: s)
      next
        case (Cons d r')
        show ?thesis
        proof (cases "d = 125")
          case True
          with 1 obj Cons have "rest = r'" by (simp add: s)
          with sk Cons show ?thesis by (simp add: s)
        next
          case False
          with 1 obj Cons obtain kvs' where "parse_object n (d # r') = Scanned kvs' rest"
            by (auto simp: s split: scan.splits)
          from Suc.IH(3) [OF this] sk Cons show ?thesis by (simp add: s)
        qed
      qed
    next
      case arr
      show ?thesis
      proof (cases "skip_ws r")
        case Nil
        with 1 arr show ?thesis by (simp add: s)
      next
        case (Cons d r')
        show ?thesis
        proof (cases "d = 93")
          case True
          with 1 arr Cons have "rest = r'" by (simp add: s)
          with sk Cons show ?thesis by (simp add: s)
        next
          case False
          with 1 arr Cons obtain xs' where "parse_array n (d # r') = Scanned xs' rest"
            by (auto simp: s split: scan.splits)
          from Suc.IH(2) [OF this] sk Cons show ?thesis by (simp add: s)
        qed
      qed
    next
      case other
      have "(\<exists>k. rest = drop k r) \<or> match_number s = Some (v, rest)"
        using 1 other unfolding s scan_once.simps list.case
        by (auto split: if_splits option.splits)
      then show ?thesis
      proof
        assume "\<exists>k. rest = drop k r"
        then show ?thesis by (auto simp: s)
      next
        assume "match_number s = Some (v, rest)"
        then show ?thesis by (rule match_number_consumes)
      qed
    qed
  next
    case 2
    then obtain x r1 where x: "scan_once n s = Scanned x r1"
      by (auto split: scan.splits)
    from Suc.IH(1) [OF this] have l1: "length r1 < length s" .
    have sk: "length (skip_ws r1) \<le> length r1" by (rule length_skip_ws)
    obtain d r where d: "skip_ws r1 = d # r"
      using 2 x by (cases "skip_ws r1") auto
    show ?case
    proof (cases "d = 93")
      case True
      with 2 x d have "rest = r" by simp
      with sk d l1 show ?thesis by simp
    next
      case False
      with 2 x d obtain vs where "parse_array n (skip_ws r) = Scanned vs rest"
        by (auto split: if_splits scan.splits)
      from Suc.IH(2) [OF this] length_skip_ws [of r] sk d l1 show ?thesis by simp
    qed
  next
    case 3
    then obtain q r where s: "s = q # r" by (cases s) auto
    with 3 have q: "q = 34" by (auto split: if_splits)
    from 3 s q obtain k r0 where k: "scanstring r = Some (k, r0)"
      by (auto split: option.splits)
    from scanstring_consumes [OF this] have l0: "length r0 < length r" .
    obtain colon r1 where c: "skip_ws r0 = colon # r1"
      using 3 s q k by (cases "skip_ws r0") auto
    with 3 s q k have colon: "colon = 58" by (auto split: if_splits)
    from 3 s q k c colon obtain x r2 where x: "scan_once n (skip_ws r1) = Scanned x r2"
      by (auto split: scan.splits)
    from Suc.IH(1) [OF this] have l2: "length r2 < length (skip_ws r1)" .
    obtain d r3 where d: "skip_ws r2 = d # r3"
      using 3 s q k c colon x by (cases "skip_ws r2") auto
    have chain: "length r3 < length s"
      using l0 l2 length_skip_ws [of r0] length_skip_ws [of r1] length_skip_ws [of r2] c d
      by (simp add: s)
    show ?case
    proof (cases "d = 125")
      case True
      with 3 s q k c colon x d have "rest = r3" by simp
      with chain show ?thesis by simp
    next
      case False
      with 3 s q k c colon x d obtain kvs' where "parse_object n (skip_ws r3) = Scanned kvs' rest"
        by (auto split: if_splits scan.splits)
      from Suc.IH(3) [OF this] length_skip_ws [of r3] chain show ?thesis by simp
    qed
  }
qed

lemma scan_fuel:
  "2 * length s < n \<Longrightarrow> scan_once n s \<noteq> Fuel"
  "2 * length s + 1 < n \<Longrightarrow> parse_array n s \<noteq> Fuel"
  "2 * length s + 1 < n \<Longrightarrow> parse_object n s \<noteq> Fuel"
proof (induction n arbitrary: s)
  case 0
  {
    case 1 then show ?case by simp
  next
    case 2 then show ?case by simp
  next
    case 3 then show ?case by simp
  }
next
  case (Suc n)
  {
    case 1
    show ?case
    proof (cases s)
      case Nil
      then show ?thesis by simp
    next
      case (Cons c r)
      have sk: "length (skip_ws r) \<le> length r" by (rule length_skip_ws)
      have "parse_object n (d # r') \<noteq> Fuel" "parse_array n (d # r') \<noteq> Fuel"
        if "skip_ws r = d # r'" for d r'
        using Suc.IH(2,3) [of "d # r'"] sk that 1 Cons by simp_all
      then show ?thesis
        by (auto simp: Cons split: list.splits option.splits scan.splits)
    qed
  next
    case 2
    have a: "scan_once n s \<noteq> Fuel" using Suc.IH(1) [of s] 2 by simp
    have "parse_array n (skip_ws r) \<noteq> Fuel"
      if "scan_once n s = Scanned x r1" "skip_ws r1 = d # r" for x r1 d r
    proof -
      have "length r < length s"
        using scan_consumes(1) [OF that(1)] length_skip_ws [of r1] that(2) by simp
      then show ?thesis
        using Suc.IH(2) [of "skip_ws r"] length_skip_ws [of r] 2 by simp
    qed
    with a show ?case
      by (auto split: list.splits scan.splits)
  next
    case 3
    have a: "scan_once n (skip_ws r1) \<noteq> Fuel"
      if "s = q # r" "scanstring r = Some (k, r0)" "skip_ws r0 = colon # r1" for q r k r0 colon r1
    proof -
      have "length (skip_ws r1) < length s"
        using scanstring_consumes [OF that(2)] length_skip_ws [of r0] length_skip_ws [of r1] that(1,3)
        by simp
      then show ?thesis using Suc.IH(1) [of "skip_ws r1"] 3 by simp
    qed
    have b: "parse_object n (skip_ws r3) \<noteq> Fuel"
      if "s = q # r" "scanstring r = Some (k, r0)" "skip_ws r0 = colon # r1"
        "scan_once n (skip_ws r1) = Scanned x r2" "skip_ws r2 = d # r3" for q r k r0 colon r1 x r2 d r3
    proof -
      have "length (skip_ws r3) < length s"
        using scanstring_consumes [OF that(2)] scan_consumes(1) [OF that(4)]
          length_skip_ws [of r0] length_skip_ws [of r1] length_skip_ws [of r2]
          length_skip_ws [of r3] that(1,3,5)
        by simp
      then show ?thesis using Suc.IH(3) [of "skip_ws r3"] 3 by simp
    qed
    show ?case
      using a b by (auto split: list.splits option.splits scan.splits) blast+
  }
qed

lemma json_loads_fuel: "scan_once (2 * length s + 1) (skip_ws s) \<noteq> Fuel"
  using scan_fuel(1) [of "skip_ws s" "2 * length s + 1"] length_skip_ws [of s] by simp


section \<open>Reading back what was written\<close>

subsection \<open>Strings\<close>

lemma unhex_hexdigit: "d < 16 \<Longrightarrow> unhex (hexdigit d) = Some d"
  by (auto simp: unhex_def hexdigit_def)

lemma length_hex4: "length (hex4 n) = 4"
  by (simp add: hex4_def)

lemma hex4_value:
  assumes "(n::nat) < 65536"
  shows "4096 * (n div 4096 mod 16) + 256 * (n div 256 mod 16) + 16 * (n div 16 mod 16) + n mod 16 = n"
proof -
  have a: "n div 4096 mod 16 = n div 4096" using assms by simp
  have b: "n div 256 mod 16 = n div 256 - 16 * (n div 4096)"
    by (simp add: minus_mult_div_eq_mod [symmetric] div_mult2_eq [symmetric])
  have c: "n div 16 mod 16 = n div 16 - 16 * (n div 256)"
    by (simp add: minus_mult_div_eq_mod [symmetric] div_mult2_eq [symmetric])
  have d: "n mod 16 = n - 16 * (n div 16)"
    by (simp add: minus_mult_div_eq_mod [symmetric])
  have e: "16 * (n div 4096) \<le> n div 256" "16 * (n div 256) \<le> n div 16"
    using div_mult2_eq [of n 256 16] div_mult2_eq [of n 16 16] by simp_all
  have "16 * (n div 16) \<le> n" by simp
  with e show ?thesis unfolding a b c d by linarith
qed

lemma unhex4_hex4: "n < 65536 \<Longrightarrow> unhex4 (hex4 n) = Some n"
  using hex4_value [of n] by (simp add: hex4_def unhex_hexdigit)

lemma scanstring_uescape_bmp:
  assumes "n < 65536" "\<not> is_surrogate n"
  shows "scanstring (uescape n @ rest) = cons_char n (scanstring rest)"
proof -
  have "scanstring (uescape n @ rest) = scanstring (92 # 117 # hex4 n @ rest)"
    by (simp add: uescape_def)
  also have "\<dots> = cons_char n (scanstring rest)"
  proof -
    have "n < 55296 \<or> 56319 < n"
      using assms(2) unfolding is_surrogate_def by linarith
    then show ?thesis
      using assms(1) by (elim disjE) (simp_all add: length_hex4 unhex4_hex4)
  qed
  finally show ?thesis .
qed

lemma scanstring_uescape_pair:
  assumes "55296 \<le> hi" "hi \<le> 56319" "56320 \<le> lo" "lo \<le> 57343"
  shows "scanstring (uescape hi @ uescape lo @ rest) = cons_char (join_surrogates hi lo) (scanstring rest)"
proof -
  have "scanstring (uescape hi @ uescape lo @ rest) =
      scanstring (92 # 117 # hex4 hi @ 92 # 117 # hex4 lo @ rest)"
    by (simp add: uescape_def)
  also have "\<dots> = cons_char (join_surrogates hi lo) (scanstring rest)"
    using assms by (simp add: length_hex4 unhex4_hex4)
  finally show ?thesis .
qed

lemma join_split:
  assumes "65536 \<le> c" "c < 1114112"
  shows "join_surrogates (55296 + (c - 65536) div 1024 mod 1024) (56320 + (c - 65536) mod 1024) = c"
proof -
  have "(c - 65536) div 1024 < 1024" using assms by simp
  then have "(c - 65536) div 1024 mod 1024 = (c - 65536) div 1024" by simp
  moreover have "(c - 65536) div 1024 * 1024 + (c - 65536) mod 1024 = c - 65536" by simp
  ultimately show ?thesis using assms by (simp add: join_surrogates_def)
qed

lemma scanstring_escape_char:
  assumes "scalar c"
  shows "scanstring (escape_char c @ rest) = cons_char c (scanstring rest)"
proof -
  consider "c = 34" | "c = 92" | "c = 10" | "c = 13" | "c = 9" | "c = 8" | "c = 12"
    | "32 \<le> c" "c \<le> 126" "c \<noteq> 34" "c \<noteq> 92"
    | "c < 32" "c \<noteq> 10" "c \<noteq> 13" "c \<noteq> 9" "c \<noteq> 8" "c \<noteq> 12"
    | "126 < c" "c < 65536"
    | "65536 \<le> c"
    by linarith
  then show ?thesis
  proof cases
    case 8
    then show ?thesis by (simp add: escape_char_def)
  next
    case 9
    then have "escape_char c = uescape c" by (simp add: escape_char_def)
    moreover have "\<not> is_surrogate c" "c < 65536" using 9 by (simp_all add: is_surrogate_def)
    ultimately show ?thesis by (simp add: scanstring_uescape_bmp)
  next
    case 10
    then have "escape_char c = uescape c" by (simp add: escape_char_def)
    moreover have "\<not> is_surrogate c" using assms by (simp add: scalar_def)
    ultimately show ?thesis using 10 by (simp add: scanstring_uescape_bmp)
  next
    case 11
    then have e: "escape_char c = uescape (55296 + (c - 65536) div 1024 mod 1024)
         @ uescape (56320 + (c - 65536) mod 1024)" by (simp add: escape_char_def)
    have lt: "c < 1114112" using assms by (simp add: scalar_def)
    have "scanstring (escape_char c @ rest) =
      cons_char (join_surrogates (55296 + (c - 65536) div 1024 mod 1024) (56320 + (c - 65536) mod 1024))
        (scanstring rest)"
      unfolding e append_assoc
      by (rule scanstring_uescape_pair) simp_all
    then show ?thesis using join_split [OF 11 lt] by simp
  qed (simp_all add: escape_char_def unescape_def)
qed

lemma scanstring_escaped:
  "valid_str s \<Longrightarrow> scanstring (concat (map escape_char s) @ 34 # rest) = Some (s, rest)"
proof (induction s)
  case Nil
  then show ?case by simp
next
  case (Cons c s)
  then have "scalar c" "valid_str s" by (simp_all add: valid_str_def)
  then show ?case
    using Cons.IH scanstring_escape_char [of c "concat (map escape_char s) @ 34 # rest"]
    by (simp add: cons_char_def)
qed

subsection \<open>Numbers\<close>

lemma digits_all_digit: "c \<in> set (digits n) \<Longrightarrow> is_digit c"
  using digits_bound [of c n] by (simp add: is_digit_def)

lemma digits_0: "digits 0 = [48]"
  by (subst digits.simps) simp

lemma hd_digits_pos: "0 < n \<Longrightarrow> 49 \<le> hd (digits n) \<and> hd (digits n) \<le> 57"
proof (induction n rule: digits.induct)
  case (1 n)
  show ?case
  proof (cases "n < 10")
    case True
    with 1 show ?thesis by (subst digits.simps, subst (2) digits.simps) simp
  next
    case False
    then have "0 < n div 10" by simp
    with 1 False have "49 \<le> hd (digits (n div 10)) \<and> hd (digits (n div 10)) \<le> 57" by simp
    moreover have "digits (n div 10) \<noteq> []" by (subst digits.simps) simp
    ultimately show ?thesis using False
      by (subst digits.simps, subst (2) digits.simps) simp
  qed
qed

lemma takeWhile_digits:
  "\<forall>c \<in> set ds. is_digit c \<Longrightarrow> no_digit_next rest \<Longrightarrow>
   takeWhile is_digit (ds @ rest) = ds \<and> dropWhile is_digit (ds @ rest) = rest"
  by (induction ds) (auto simp: no_digit_next_def split: list.splits)

lemma match_int_digits:
  assumes "no_digit_next rest"
  shows "match_int (digits n @ rest) = Some (digits n, rest)"
proof (cases "n = 0")
  case True
  then show ?thesis by (simp add: digits_0 match_int_def)
next
  case False
  obtain d ds where ds: "digits n = d # ds"
    using digits_not_Nil [of n] by (cases "digits n") auto
  have d: "49 \<le> d \<and> d \<le> 57" using hd_digits_pos [of n] False ds by simp
  have "\<forall>c \<in> set ds. is_digit c" using digits_all_digit [of _ n] ds by simp
  from takeWhile_digits [OF this assms] d show ?thesis
    by (simp add: ds match_int_def)
qed

lemma delim_no_digit: "delim rest \<Longrightarrow> no_digit_next rest"
  by (auto simp: delim_def no_digit_next_def is_digit_def is_ws_def split: list.splits)

lemma match_frac_delim: "delim rest \<Longrightarrow> match_frac rest = ([], rest)"
  by (auto simp: delim_def match_frac_def is_ws_def split: list.splits)

lemma match_exp_delim: "delim rest \<Longrightarrow> match_exp rest = ([], rest)"
  by (auto simp: delim_def match_exp_def is_ws_def split: list.splits)

lemma match_number_plain:
  assumes "d \<noteq> 45" and "match_int (d # r) = Some (ip, r1)"
    and "match_frac r1 = ([], r1)" and "match_exp r1 = ([], r1)"
  shows "match_number (d # r) = Some (JInt (int (int_of_digits ip)), r1)"
  using assms by (simp add: match_number_def)

lemma match_number_minus:
  assumes "match_int r = Some (ip, r1)"
    and "match_frac r1 = ([], r1)" and "match_exp r1 = ([], r1)"
  shows "match_number (45 # r) = Some (JInt (- int (int_of_digits ip)), r1)"
  using assms by (simp add: match_number_def)

lemma match_number_str_int:
  assumes "delim rest"
  shows "match_number (str_int i @ rest) = Some (JInt i, rest)"
proof (cases "i < 0")
  case True
  have "match_number (45 # digits (nat (- i)) @ rest) =
      Some (JInt (- int (int_of_digits (digits (nat (- i))))), rest)"
    by (rule match_number_minus [OF match_int_digits [OF delim_no_digit [OF assms]]
          match_frac_delim [OF assms] match_exp_delim [OF assms]])
  with True show ?thesis by (simp add: str_int_def int_of_digits_digits)
next
  case False
  obtain d ds where ds: "digits (nat i) = d # ds"
    using digits_not_Nil [of "nat i"] by (cases "digits (nat i)") auto
  have d: "d \<noteq> 45" using hd_digits [of "nat i"] ds by simp
  have "match_int (d # ds @ rest) = Some (digits (nat i), rest)"
    using match_int_digits [OF delim_no_digit [OF assms], of "nat i"] by (simp add: ds)
  from match_number_plain [OF d this match_frac_delim [OF assms] match_exp_delim [OF assms]]
  show ?thesis using False by (simp add: str_int_def ds [symmetric] int_of_digits_digits)
     (simp add: ds)
qed

subsection \<open>Values\<close>

lemma scan_once_int:
  assumes "delim rest"
  shows "scan_once (Suc n) (str_int i @ rest) = Scanned (JInt i) rest"
proof (cases "i < 0")
  case True
  obtain d ds where ds: "digits (nat (- i)) = d # ds"
    using digits_not_Nil [of "nat (- i)"] by (cases "digits (nat (- i))") auto
  have d: "48 \<le> d \<and> d \<le> 57" using digits_bound [of d "nat (- i)"] ds by simp
  have s: "str_int i @ rest = 45 # d # ds @ rest" using True by (simp add: str_int_def ds)
  have "scan_once (Suc n) (45 # d # ds @ rest) =
      (case match_number (45 # d # ds @ rest) of None \<Rightarrow> Syntax | Some (v, r) \<Rightarrow> Scanned v r)"
    using d by (simp add: starts_with_def ascii_def)
  then show ?thesis
    using match_number_str_int [OF assms, of i] by (simp add: s)
next
  case False
  obtain d ds where ds: "digits (nat i) = d # ds"
    using digits_not_Nil [of "nat i"] by (cases "digits (nat i)") auto
  have d: "48 \<le> d \<and> d \<le> 57" using digits_bound [of d "nat i"] ds by simp
  have s: "str_int i @ rest = d # ds @ rest" using False by (simp add: str_int_def ds)
  have "scan_once (Suc n) (d # ds @ rest) =
      (case match_number (d # ds @ rest) of None \<Rightarrow> Syntax | Some (v, r) \<Rightarrow> Scanned v r)"
    using d by (simp add: starts_with_def ascii_def)
  then show ?thesis
    using match_number_str_int [OF assms, of i] by (simp add: s)
qed

lemma scan_once_literals:
  "scan_once (Suc n) (ascii ''null'' @ rest) = Scanned JNull rest"
  "scan_once (Suc n) (ascii ''true'' @ rest) = Scanned (JBool True) rest"
  "scan_once (Suc n) (ascii ''false'' @ rest) = Scanned (JBool False) rest"
  by (simp_all add: starts_with_def ascii_def)

lemma scan_once_string:
  "valid_str s \<Longrightarrow> scan_once (Suc n) (encode_basestring_ascii s @ rest) = Scanned (JStr s) rest"
  by (simp add: encode_basestring_ascii_def scanstring_escaped)

lemma skip_ws_starter: "starter c \<Longrightarrow> skip_ws (c # r) = c # r"
  by (simp add: skip_ws_def starter_def)

lemma skip_ws_space_starter: "starter c \<Longrightarrow> skip_ws (32 # c # r) = c # r"
  by (simp add: skip_ws_def starter_def is_ws_def)

lemma str_int_head: "\<exists>c r. str_int i = c # r \<and> starter c"
proof (cases "i < 0")
  case True
  then show ?thesis by (simp add: str_int_def starter_def is_ws_def)
next
  case False
  obtain d ds where ds: "digits (nat i) = d # ds"
    using digits_not_Nil [of "nat i"] by (cases "digits (nat i)") auto
  have "48 \<le> d \<and> d \<le> 57" using digits_bound [of d "nat i"] ds by simp
  then show ?thesis using False by (simp add: str_int_def ds starter_def is_ws_def)
qed

lemma json_dumps_head: "valid_json v \<Longrightarrow> \<exists>c r. json_dumps v = c # r \<and> starter c"
proof (cases v)
  case (JInt i)
  then show ?thesis using str_int_head [of i] by simp
qed (simp_all add: ascii_def starter_def is_ws_def encode_basestring_ascii_def)

lemma dumps_items_head:
  "xs \<noteq> [] \<Longrightarrow> valid_items xs \<Longrightarrow> \<exists>c r. dumps_items xs = c # r \<and> starter c"
proof (cases xs)
  case Nil
  then show "xs \<noteq> [] \<Longrightarrow> ?thesis" by simp
next
  case (Cons x ys)
  assume "valid_items xs"
  then have "valid_json x" using Cons by simp
  from json_dumps_head [OF this] show ?thesis
    using Cons by (cases ys) auto
qed

lemma dumps_members_head:
  "kvs \<noteq> [] \<Longrightarrow> \<exists>r. dumps_members kvs = 34 # r"
proof (cases kvs)
  case Nil
  then show "kvs \<noteq> [] \<Longrightarrow> ?thesis" by simp
next
  case (Cons kv rest)
  obtain k v where "kv = (k, v)" by (cases kv)
  then show ?thesis
    using Cons by (cases rest) (auto simp: encode_basestring_ascii_def)
qed

lemma dict_set_fresh: "k \<notin> fst ` set d \<Longrightarrow> dict_set d k v = d @ [(k, v)]"
  by (induction d) auto

lemma foldl_dict_set:
  "distinct (map fst (d @ kvs)) \<Longrightarrow> foldl (\<lambda>d (k, v). dict_set d k v) d kvs = d @ kvs"
proof (induction kvs arbitrary: d)
  case Nil
  then show ?case by simp
next
  case (Cons kv kvs)
  obtain k v where kv: "kv = (k, v)" by (cases kv)
  have "k \<notin> fst ` set d" using Cons.prems kv by auto
  then have "dict_set d k v = d @ [(k, v)]" by (rule dict_set_fresh)
  moreover have "distinct (map fst ((d @ [(k, v)]) @ kvs))" using Cons.prems kv by simp
  ultimately show ?case using Cons.IH [of "d @ [(k, v)]"] kv by simp
qed

lemma dict_of_distinct: "distinct (map fst kvs) \<Longrightarrow> dict_of kvs = kvs"
  using foldl_dict_set [of "[]" kvs] by (simp add: dict_of_def)

lemma delim_simps: "delim (44 # r)" "delim (93 # r)" "delim (125 # r)" "delim (10 # r)" "delim []"
  by (simp_all add: delim_def is_ws_def)

lemma scan_round_trip:
  "valid_json v \<Longrightarrow> delim rest \<Longrightarrow> length (json_dumps v) \<le> n \<Longrightarrow>
     scan_once n (json_dumps v @ rest) = Scanned v rest"
  "xs \<noteq> [] \<Longrightarrow> valid_items xs \<Longrightarrow> length (dumps_items xs) < n \<Longrightarrow>
     parse_array n (dumps_items xs @ 93 # rest) = Scanned xs rest"
  "kvs \<noteq> [] \<Longrightarrow> valid_members kvs \<Longrightarrow> length (dumps_members kvs) < n \<Longrightarrow>
     parse_object n (dumps_members kvs @ 125 # rest) = Scanned kvs rest"
proof (induction v and xs and kvs arbitrary: n rest and n rest and n rest
    rule: json_dumps_dumps_items_dumps_members.induct)
  case 1
  then obtain m where "n = Suc m" by (cases n) (auto simp: ascii_def)
  then show ?case using scan_once_literals(1) by simp
next
  case (2 b)
  then obtain m where "n = Suc m" by (cases n) (auto simp: ascii_def split: if_splits)
  then show ?case using scan_once_literals(2,3) by simp
next
  case (3 i)
  then obtain m where "n = Suc m" using str_int_head [of i] by (cases n) auto
  then show ?case using scan_once_int [OF "3.prems"(2)] by simp
next
  case (4 lit)
  then show ?case by simp
next
  case (5 s)
  then obtain m where "n = Suc m" by (cases n) (auto simp: encode_basestring_ascii_def)
  then show ?case using scan_once_string 5 by simp
next
  case (6 xs)
  then obtain m where n: "n = Suc m" by (cases n) auto
  show ?case
  proof (cases "xs = []")
    case True
    then show ?thesis by (simp add: n skip_ws_def is_ws_def)
  next
    case False
    have v: "valid_items xs" using "6.prems" by simp
    obtain c r where h: "dumps_items xs = c # r" "starter c"
      using dumps_items_head [OF False v] by blast
    have "length (dumps_items xs) < m" using "6.prems"(3) n by simp
    from "6.IH" [OF False v this, of rest]
    have "parse_array m (c # r @ 93 # rest) = Scanned xs rest" by (simp add: h)
    then show ?thesis
      using h(2) by (simp add: n h(1) skip_ws_starter) (simp add: starter_def)
  qed
next
  case (7 kvs)
  then obtain m where n: "n = Suc m" by (cases n) auto
  show ?case
  proof (cases "kvs = []")
    case True
    then show ?thesis by (simp add: n skip_ws_def is_ws_def dict_of_def)
  next
    case False
    have v: "valid_members kvs" "distinct (map fst kvs)" using "7.prems" by simp_all
    obtain r where h: "dumps_members kvs = 34 # r"
      using dumps_members_head [OF False] by blast
    have "length (dumps_members kvs) < m" using "7.prems"(3) n by simp
    from "7.IH" [OF False v(1) this, of rest]
    have "parse_object m (34 # r @ 125 # rest) = Scanned kvs rest" by (simp add: h)
    then show ?thesis
      by (simp add: n h skip_ws_def is_ws_def dict_of_distinct [OF v(2)])
  qed
next
  case 8
  then show ?case by simp
next
  case (9 x)
  then obtain m where n: "n = Suc m" by (cases n) auto
  have "scan_once m (json_dumps x @ 93 # rest) = Scanned x (93 # rest)"
    using "9.IH" [of "93 # rest" m] "9.prems" n by (simp add: delim_simps)
  then show ?case by (simp add: n skip_ws_def is_ws_def)
next
  case (10 x y ys)
  then obtain m where n: "n = Suc m" by (cases n) auto
  have vy: "valid_items (y # ys)" "valid_json x" using "10.prems" by simp_all
  obtain c r where h: "dumps_items (y # ys) = c # r" "starter c"
    using dumps_items_head [OF _ vy(1)] by blast
  have "scan_once m (json_dumps x @ 44 # 32 # dumps_items (y # ys) @ 93 # rest) =
      Scanned x (44 # 32 # dumps_items (y # ys) @ 93 # rest)"
    using "10.IH"(1) [OF vy(2), of "44 # 32 # dumps_items (y # ys) @ 93 # rest" m] "10.prems" n
    by (simp add: delim_simps)
  moreover have "parse_array m (dumps_items (y # ys) @ 93 # rest) = Scanned (y # ys) rest"
    using "10.IH"(2) [OF _ vy(1), of m rest] "10.prems" n by simp
  ultimately show ?case
    using skip_ws_space_starter [OF h(2), of "r @ 93 # rest"]
    by (simp add: n skip_ws_def [of "44 # _"] is_ws_def h(1))
next
  case 11
  then show ?case by simp
next
  case (12 k v)
  then obtain m where n: "n = Suc m" by (cases n) auto
  have vk: "valid_str k" "valid_json v" using "12.prems" by simp_all
  obtain c r where h: "json_dumps v = c # r" "starter c"
    using json_dumps_head [OF vk(2)] by blast
  have "scan_once m (json_dumps v @ 125 # rest) = Scanned v (125 # rest)"
    using "12.IH" [OF vk(2), of "125 # rest" m] "12.prems" n by (simp add: delim_simps)
  then show ?case
    using skip_ws_space_starter [OF h(2), of "r @ 125 # rest"]
    by (simp add: n encode_basestring_ascii_def scanstring_escaped [OF vk(1)]
        skip_ws_def [of "58 # _"] skip_ws_def [of "125 # _"] is_ws_def h(1))
next
  case (13 k v kv kvs)
  then obtain m where n: "n = Suc m" by (cases n) auto
  have vk: "valid_str k" "valid_json v" "valid_members (kv # kvs)" using "13.prems" by simp_all
  obtain c r where h: "json_dumps v = c # r" "starter c"
    using json_dumps_head [OF vk(2)] by blast
  obtain r' where h': "dumps_members (kv # kvs) = 34 # r'"
    using dumps_members_head [of "kv # kvs"] by blast
  have "scan_once m (json_dumps v @ 44 # 32 # dumps_members (kv # kvs) @ 125 # rest) =
      Scanned v (44 # 32 # dumps_members (kv # kvs) @ 125 # rest)"
    using "13.IH"(1) [OF vk(2), of "44 # 32 # dumps_members (kv # kvs) @ 125 # rest" m] "13.prems" n
    by (simp add: delim_simps)
  moreover have "parse_object m (dumps_members (kv # kvs) @ 125 # rest) = Scanned (kv # kvs) rest"
    using "13.IH"(2) [OF _ vk(3), of m rest] "13.prems" n by simp
  ultimately show ?case
    using skip_ws_space_starter [OF h(2), of "r @ 44 # 32 # dumps_members (kv # kvs) @ 125 # rest"]
    by (simp add: n encode_basestring_ascii_def scanstring_escaped [OF vk(1)]
        skip_ws_def [of "58 # _"] skip_ws_def [of "44 # _"] skip_ws_def [of "32 # 34 # _"] is_ws_def h(1) h')
qed

subsection \<open>Documents and lines\<close>

lemma json_loads_json_dumps:
  assumes "valid_json v"
  shows "json_loads (json_dumps v @ [10]) = Inr v"
proof -
  obtain c r where h: "json_dumps v = c # r" "starter c"
    using json_dumps_head [OF assms] by blast
  have "scan_once (2 * length (json_dumps v @ [10]) + 1) (json_dumps v @ [10]) = Scanned v [10]"
    by (rule scan_round_trip(1) [OF assms]) (simp_all add: delim_simps)
  moreover have "skip_ws (json_dumps v @ [10]) = json_dumps v @ [10]"
    using skip_ws_starter [OF h(2), of "r @ [10]"] by (simp add: h(1))
  moreover have "take 1 (json_dumps v @ [10]) \<noteq> [65279]"
    using h by (simp add: starter_def)
  moreover have "skip_ws [10] = []" by (simp add: skip_ws_def is_ws_def)
  ultimately show ?thesis by (simp add: json_loads_def)
qed

lemma json_dumps_ascii:
  "valid_json v \<Longrightarrow> c \<in> set (json_dumps v) \<Longrightarrow> c < 128"
  "valid_items xs \<Longrightarrow> c \<in> set (dumps_items xs) \<Longrightarrow> c < 128"
  "valid_members kvs \<Longrightarrow> c \<in> set (dumps_members kvs) \<Longrightarrow> c < 128"
proof (induction v and xs and kvs arbitrary: c and c and c
    rule: json_dumps_dumps_items_dumps_members.induct)
  case (3 i)
  then show ?case using str_int_bound [of c i] by simp
next
  case (5 s)
  then show ?case using encode_basestring_ascii_bound [of c s] by simp
next
  case (12 k v)
  then show ?case using encode_basestring_ascii_bound [of c k] by auto
next
  case (13 k v kv kvs)
  then show ?case using encode_basestring_ascii_bound [of c k] by auto
qed (auto simp: ascii_def split: if_splits)

lemma utf8_decode_utf8:
  "\<forall>c \<in> set t. c < 128 \<Longrightarrow> utf8_decode (utf8 t) = Some t"
  by (induction t) (simp_all add: utf8_def utf8_char_def byte_def)

lemma decode_frame:
  assumes "valid_json v"
  shows "decode (frame v) = Inr (json_dumps v @ [10])"
proof -
  have "\<forall>c \<in> set (json_dumps v @ [10]). c < 128"
    using json_dumps_ascii(1) [OF assms] by auto
  then have "utf8_decode (utf8 (json_dumps v @ [10])) = Some (json_dumps v @ [10])"
    by (rule utf8_decode_utf8)
  then show ?thesis by (simp add: decode_def frame_def utf8_append utf8_LF)
qed

lemma valid_str_ascii: "\<forall>b \<in> set w. of_char b < (128::nat) \<Longrightarrow> valid_str (ascii w)"
  by (induction w) (simp_all add: valid_str_def ascii_def scalar_def is_surrogate_def)

lemma valid_str_str_int: "valid_str (str_int i)"
proof -
  have "scalar c" if "c \<in> set (str_int i)" for c
    using str_int_bound [OF that] by (simp add: scalar_def is_surrogate_def)
  then show ?thesis by (simp add: valid_str_def list_all_iff)
qed

lemma ascii_inj: "ascii a = ascii b \<longleftrightarrow> a = b"
  by (simp add: ascii_def inj_map_eq_map inj_def)

lemma valid_request_envelope:
  "valid_str ident \<Longrightarrow> valid_str meth \<Longrightarrow> valid_json (JObj ps) \<Longrightarrow>
   valid_json (request_envelope ident meth ps)"
  by (simp add: request_envelope_def valid_str_ascii ascii_inj)

lemma valid_result_envelope:
  "valid_json ident \<Longrightarrow> valid_json result \<Longrightarrow> valid_json (result_envelope ident result)"
  by (simp add: result_envelope_def valid_str_ascii ascii_inj)


lemma envelope_request_envelope: "envelope i m ps = request_envelope (str_int i) m ps"
  by (simp add: envelope_def request_envelope_def)

lemma lookup_id:
  "lookup (ascii ''id'') (request_envelope ident meth ps) = Some (JStr ident)"
  "lookup (ascii ''id'') (result_envelope i result) = Some i"
  by (simp_all add: request_envelope_def result_envelope_def ascii_inj)

lemma echo_responder_frame:
  assumes "valid_str ident" and "valid_str meth" and "valid_json (JObj ps)" and "valid_json result"
  shows "echo_responder result (frame (request_envelope ident meth ps)) =
      Some (frame (result_envelope (JStr ident) result))"
proof -
  have "valid_json (request_envelope ident meth ps)"
    using assms(1-3) by (rule valid_request_envelope)
  then show ?thesis
    by (simp add: echo_responder_def decode_frame json_loads_json_dumps lookup_id
        encode_json_dumps)
qed

text \<open>
  The same through the client: a call whose reply is what the echo responder makes of
  the frame sent returns the response with the id of the request.
\<close>

lemma call_through_echo:
  assumes "socket c = Some s" and "\<not> closed s" and "send_result nw = Inr n"
    and "valid_str meth" and "valid_json (JObj ps)" and "valid_json result"
    and "echo_responder result (frame (envelope (request_id c + 1) meth ps)) = Some reply"
    and "recv_result nw = Inr reply"
  shows "outcome (send_request nw c meth (Some ps)) =
      Inr (result_envelope (JStr (str_int (request_id c + 1))) result)"
proof -
  let ?resp = "result_envelope (JStr (str_int (request_id c + 1))) result"
  have v: "valid_json ?resp"
    using assms(6) by (simp add: valid_result_envelope valid_str_str_int)
  have "reply = frame ?resp"
    using echo_responder_frame [OF valid_str_str_int assms(4-6), of "request_id c + 1"] assms(7)
    by (simp add: envelope_request_envelope)
  then have d: "decode reply = Inr (json_dumps ?resp @ [10])"
    using decode_frame [OF v] by simp
  have "outcome (send_request nw c meth (Some ps)) = json_loads (json_dumps ?resp @ [10])"
    by (rule outcome_open [OF assms(1-3) assms(8) d]) simp
  then show ?thesis by (simp add: json_loads_json_dumps [OF v])
qed

lemma frame_request_1:
  \<open>frame (request_envelope (ascii ''1'') (ascii ''log.message'')
      [(ascii ''loggerId'', JStr (ascii ''myapp'')), (ascii ''level'', JStr (ascii ''INFO'')),
       (ascii ''message'', JStr (ascii ''hello''))]) =
    ''{"jsonrpc": "2.0", "id": "1", "method": "log.message", "params": {"loggerId": "myapp", "level": "INFO", "message": "hello"}}\<newline>''\<close>
  by code_simp

lemma frame_result_1:
  \<open>frame (result_envelope (JStr (ascii ''1'')) (JObj [(ascii ''status'', JStr (ascii ''ok''))])) =
    ''{"jsonrpc": "2.0", "id": "1", "result": {"status": "ok"}}\<newline>''\<close>
  by code_simp

section \<open>Sample replies\<close>


lemma json_loads_ok_reply:
  \<open>json_loads (ascii ''{"jsonrpc":"2.0","id":"1","result":{"status":"ok"}}\<newline>'') =
    Inr (JObj [(ascii ''jsonrpc'', JStr (ascii ''2.0'')), (ascii ''id'', JStr (ascii ''1'')),
               (ascii ''result'', JObj [(ascii ''status'', JStr (ascii ''ok''))])])\<close>
  by code_simp




lemma take_10_frame:
  \<open>take 10 ''{"jsonrpc": "2.0", "id": "1", "method": "system.capabilities", "params": {}}\<newline>'' =
    ''{"jsonrpc"''\<close>
  by simp

section \<open>The claims\<close>




text \<open>
  C2. A call on a client whose connection has been closed is not refused as not
  connected: \<^verbatim>\<open>close\<close> leaves \<^verbatim>\<open>self.socket\<close> set, so the call passes the
  test, advances the counter from 0 to 1, and hands its frame to \<^verbatim>\<open>send\<close> on the
  closed socket, which raises \<^verbatim>\<open>OSError\<close> before anything reaches the connection.
  (With no socket at all the call is refused untouched: \<open>send_request_not_connected\<close>.)
\<close>

theorem call_after_close:
  "after (close (Inr ()) fresh) = fresh\<lparr>socket := Some (Socket True)\<rparr> \<and>
   outcome (get_capabilities nw (after (close (Inr ()) fresh))) = Inl EBADF \<and>
   EBADF \<noteq> NotConnectedError \<and> TransportError EBADF \<and>
   request_id (after (get_capabilities nw (after (close (Inr ()) fresh)))) = 1 \<and>
   network_io (trace (get_capabilities nw (after (close (Inr ()) fresh)))) =
     [Socket_send (frame (envelope 1 (ascii ''system.capabilities'') [])) (Inl EBADF)] \<and>
   wire (trace (get_capabilities nw (after (close (Inr ()) fresh)))) = []"
proof -
  have cl: "after (close (Inr ()) fresh) = fresh\<lparr>socket := Some (Socket True)\<rparr>"
    by (simp add: close_def sock_close_def fresh_def)
  have sk: "socket (fresh\<lparr>socket := Some (Socket True)\<rparr>) = Some (Socket True)" by simp
  have fl: "request_id (fresh\<lparr>socket := Some (Socket True)\<rparr>) = 0"
    "verbose (fresh\<lparr>socket := Some (Socket True)\<rparr>) = False"
    by (simp_all add: fresh_def)
  have ne: "EBADF \<noteq> NotConnectedError" "TransportError EBADF"
    by (simp_all add: EBADF_def NotConnectedError_def)
  show ?thesis
    unfolding cl get_capabilities_def
    by (simp add: send_request_connected [OF sk] exchange_def encode_json_dumps sock_send_def
        network_io_simps wire_def fl ne)
qed

text \<open>
  C3. In a call on an open socket whose \<^verbatim>\<open>send\<close> returns, the operations on the
  socket are that send and then one \<^verbatim>\<open>recv(4096)\<close>, nothing else; and when the
  receive returns no bytes the call fails with the exception
  \<^verbatim>\<open>Server closed connection\<close> instead of returning a response.
\<close>

theorem one_receive_then_closed_peer:
  assumes "socket c = Some s" and "\<not> closed s" and "send_result nw = Inr n"
  shows "network_io (trace (send_request nw c method ps)) =
      [Socket_send (frame (envelope (request_id c + 1) method (case ps of None \<Rightarrow> [] | Some p \<Rightarrow> p))) (Inr n),
       Socket_recv 4096 (recv_result nw)] \<and>
    length (filter is_recv (trace (send_request nw c method ps))) = 1 \<and>
    (recv_result nw = Inr [] \<longrightarrow> outcome (send_request nw c method ps) = Inl ConnectionClosedError)"
  using assms
  by (auto simp: send_request_connected exchange_open network_io_simps decode_Nil
      split: sum.splits prod.splits)

theorem one_receive_then_closed_peer_witness:
  \<open>socket fresh = Some (Socket False) \<and> \<not> closed (Socket False) \<and>
   network_io (trace (send_request \<lparr>send_result = Inr 77, recv_result = Inr []\<rparr> fresh
       (ascii ''system.capabilities'') None)) =
     [Socket_send ''{"jsonrpc": "2.0", "id": "1", "method": "system.capabilities", "params": {}}\<newline>'' (Inr 77),
      Socket_recv 4096 (Inr [])] \<and>
   outcome (send_request \<lparr>send_result = Inr 77, recv_result = Inr []\<rparr> fresh
       (ascii ''system.capabilities'') None) = Inl (Exception (ascii ''Server closed connection''))\<close>
  using one_receive_then_closed_peer [of fresh "Socket False"
      "\<lparr>send_result = Inr 77, recv_result = Inr []\<rparr>" 77 "ascii ''system.capabilities''" None]
  by (simp add: fresh_fields frame_capabilities_1 ConnectionClosedError_def)






text \<open>
  C6. A send that takes only part of the frame goes unnoticed: \<^verbatim>\<open>socket.send\<close>
  returns the number of bytes taken and the client does not look at it. Here the
  operating system takes 10 of the 77 bytes; the call goes on to receive and returns the
  reply, with only \<^verbatim>\<open>{"jsonrpc"\<close> written to the connection.
\<close>

theorem short_write_unnoticed:
  \<open>sends (trace (get_capabilities
      \<lparr>send_result = Inr 10,
       recv_result = Inr ''{"jsonrpc":"2.0","id":"1","result":{"status":"ok"}}\<newline>''\<rparr> fresh)) =
     [''{"jsonrpc": "2.0", "id": "1", "method": "system.capabilities", "params": {}}\<newline>''] \<and>
   wire (trace (get_capabilities
      \<lparr>send_result = Inr 10,
       recv_result = Inr ''{"jsonrpc":"2.0","id":"1","result":{"status":"ok"}}\<newline>''\<rparr> fresh)) =
     ''{"jsonrpc"'' \<and>
   outcome (get_capabilities
      \<lparr>send_result = Inr 10,
       recv_result = Inr ''{"jsonrpc":"2.0","id":"1","result":{"status":"ok"}}\<newline>''\<rparr> fresh) =
     Inr (JObj [(ascii ''jsonrpc'', JStr (ascii ''2.0'')), (ascii ''id'', JStr (ascii ''1'')),
                (ascii ''result'', JObj [(ascii ''status'', JStr (ascii ''ok''))])])\<close>
proof -
  let ?nw = \<open>\<lparr>send_result = Inr 10,
       recv_result = Inr ''{"jsonrpc":"2.0","id":"1","result":{"status":"ok"}}\<newline>''\<rparr>\<close>
  have d: \<open>decode ''{"jsonrpc":"2.0","id":"1","result":{"status":"ok"}}\<newline>'' =
      Inr (ascii ''{"jsonrpc":"2.0","id":"1","result":{"status":"ok"}}\<newline>'')\<close>
    by (simp add: decode_ascii)
  have ne: \<open>ascii ''{"jsonrpc":"2.0","id":"1","result":{"status":"ok"}}\<newline>'' \<noteq> []\<close>
    by (simp add: ascii_def)
  have \<open>outcome (send_request ?nw fresh (ascii ''system.capabilities'') None) =
      json_loads (ascii ''{"jsonrpc":"2.0","id":"1","result":{"status":"ok"}}\<newline>'')\<close>
    by (rule outcome_open [OF fresh_fields(1) _ _ _ d ne, where n = 10]) simp_all
  moreover have "wire (trace (send_request ?nw fresh (ascii ''system.capabilities'') None)) =
      take 10 (frame (envelope 1 (ascii ''system.capabilities'') []))"
    using wire_open [OF fresh_fields(1), of ?nw 10 "ascii ''system.capabilities''" None]
    by (simp add: fresh_fields)
  moreover have "sends (trace (send_request ?nw fresh (ascii ''system.capabilities'') None)) =
      [frame (envelope 1 (ascii ''system.capabilities'') [])]"
    using send_request_sends [OF fresh_fields(1), of ?nw "ascii ''system.capabilities''" None]
    by (simp add: fresh_fields)
  ultimately show ?thesis
    by (simp add: get_capabilities_def json_loads_ok_reply frame_capabilities_1)
qed

text \<open>
  C7. \<^verbatim>\<open>close\<close> never raises, in any state and whatever the release of the socket
  does, and neither does a second \<^verbatim>\<open>close\<close> after it; the second one changes
  nothing and touches no socket. When the release of an open socket raises, the error is
  printed and not raised.
\<close>

theorem close_never_raises:
  "outcome (close os c) = Inr () \<and>
   outcome (close os' (after (close os c))) = Inr () \<and>
   after (close os' (after (close os c))) = after (close os c) \<and>
   network_io (trace (close os' (after (close os c)))) = [] \<and>
   (\<forall>s e. socket c = Some s \<and> \<not> closed s \<and> os = Inl e \<longrightarrow>
      trace (close os c) = [Socket_close os, Print (Error_closing e)])"
  by (cases "socket c"; cases os; cases os')
    (auto simp: close_def sock_close_def Let_def network_io_def split: prod.splits sum.splits if_splits)

theorem close_never_raises_witness:
  "socket fresh = Some (Socket False) \<and> \<not> closed (Socket False) \<and>
   outcome (close (Inl (OSError (ascii ''[Errno 5] Input/output error''))) fresh) = Inr () \<and>
   outcome (close (Inr ())
     (after (close (Inl (OSError (ascii ''[Errno 5] Input/output error''))) fresh))) = Inr () \<and>
   trace (close (Inl (OSError (ascii ''[Errno 5] Input/output error''))) fresh) =
     [Socket_close (Inl (OSError (ascii ''[Errno 5] Input/output error''))),
      Print (Error_closing (OSError (ascii ''[Errno 5] Input/output error'')))]"
  using close_never_raises [of "Inl (OSError (ascii ''[Errno 5] Input/output error''))" fresh "Inr ()"]
  by (simp add: fresh_fields)

text \<open>
  C8. \<^verbatim>\<open>get_entries\<close> sends the method \<^verbatim>\<open>log.getEntries\<close> with the two parameters
  \<^verbatim>\<open>loggerId\<close> and \<^verbatim>\<open>level\<close>, in this order: without a level filter the key
  \<^verbatim>\<open>level\<close> is present with the value \<^verbatim>\<open>null\<close>, with a filter it has that value.
\<close>

theorem get_entries_level_key:
  assumes \<open>socket c = Some s\<close>
  shows \<open>sends (trace (get_entries nw c logger_id None)) =
      [frame (envelope (request_id c + 1) (ascii ''log.getEntries'')
         [(ascii ''loggerId'', JStr logger_id), (ascii ''level'', JNull)])] \<and>
    sends (trace (get_entries nw c logger_id (Some level))) =
      [frame (envelope (request_id c + 1) (ascii ''log.getEntries'')
         [(ascii ''loggerId'', JStr logger_id), (ascii ''level'', JStr level)])] \<and>
    json_dumps (JObj [(ascii ''loggerId'', JStr logger_id), (ascii ''level'', JNull)]) =
      ascii ''{"loggerId": '' @ encode_basestring_ascii logger_id @ ascii '', "level": null}''\<close>
proof -
  have \<open>json_dumps (JObj [(ascii ''loggerId'', JStr logger_id), (ascii ''level'', JNull)]) =
      ascii ''{"loggerId": '' @ encode_basestring_ascii logger_id @ ascii '', "level": null}''\<close>
    by (simp add: ascii_def encode_basestring_ascii_def escape_char_def)
  then show ?thesis
    using send_request_sends [OF assms] by (simp add: get_entries_def)
qed

theorem get_entries_level_key_witness:
  \<open>socket fresh = Some (Socket False) \<and>
   sends (trace (get_entries \<lparr>send_result = Inr 106, recv_result = Inr []\<rparr> fresh
      (ascii ''myapp'') None)) =
     [''{"jsonrpc": "2.0", "id": "1", "method": "log.getEntries", "params": {"loggerId": "myapp", "level": null}}\<newline>'']\<close>
  using get_entries_level_key [of fresh "Socket False"
      "\<lparr>send_result = Inr 106, recv_result = Inr []\<rparr>" "ascii ''myapp''"]
  by (simp add: fresh_fields frame_get_entries_1)

text \<open>
  C9. For every request object whose id, method and parameters are valid in the sense
  above, and every valid result: the line the client makes of it
  (\<^verbatim>\<open>(json.dumps(request) + "\n").encode()\<close>) is answered by the echo responder with
  the line of the response that wraps the same id; decoding that line as the client does
  (\<^verbatim>\<open>json.loads(line.decode())\<close>) gives this response back, and its id is the id of
  the request.
\<close>

theorem id_round_trip:
  assumes "valid_str ident" and "valid_str meth" and "valid_json (JObj ps)" and "valid_json result"
  shows "encode (json_dumps (request_envelope ident meth ps) @ [10]) =
      Inr (frame (request_envelope ident meth ps)) \<and>
    echo_responder result (frame (request_envelope ident meth ps)) =
      Some (frame (result_envelope (JStr ident) result)) \<and>
    decode (frame (result_envelope (JStr ident) result)) =
      Inr (json_dumps (result_envelope (JStr ident) result) @ [10]) \<and>
    json_loads (json_dumps (result_envelope (JStr ident) result) @ [10]) =
      Inr (result_envelope (JStr ident) result) \<and>
    lookup (ascii ''id'') (result_envelope (JStr ident) result) = Some (JStr ident) \<and>
    lookup (ascii ''id'') (request_envelope ident meth ps) = Some (JStr ident)"
proof -
  have "valid_json (result_envelope (JStr ident) result)"
    using assms(1,4) by (simp add: valid_result_envelope)
  then show ?thesis
    using echo_responder_frame [OF assms]
    by (simp add: encode_json_dumps decode_frame json_loads_json_dumps lookup_id)
qed

theorem id_round_trip_witness:
  \<open>valid_str (ascii ''1'') \<and> valid_str (ascii ''log.message'') \<and>
   valid_json (JObj [(ascii ''loggerId'', JStr (ascii ''myapp'')),
      (ascii ''level'', JStr (ascii ''INFO'')), (ascii ''message'', JStr (ascii ''hello''))]) \<and>
   valid_json (JObj [(ascii ''status'', JStr (ascii ''ok''))]) \<and>
   echo_responder (JObj [(ascii ''status'', JStr (ascii ''ok''))])
     ''{"jsonrpc": "2.0", "id": "1", "method": "log.message", "params": {"loggerId": "myapp", "level": "INFO", "message": "hello"}}\<newline>'' =
     Some ''{"jsonrpc": "2.0", "id": "1", "result": {"status": "ok"}}\<newline>'' \<and>
   json_loads (json_dumps (result_envelope (JStr (ascii ''1'')) (JObj [(ascii ''status'', JStr (ascii ''ok''))])) @ [10]) =
     Inr (JObj [(ascii ''jsonrpc'', JStr (ascii ''2.0'')), (ascii ''id'', JStr (ascii ''1'')),
                (ascii ''result'', JObj [(ascii ''status'', JStr (ascii ''ok''))])])\<close>
proof -
  have v: "valid_str (ascii ''1'')" "valid_str (ascii ''log.message'')"
    "valid_json (JObj [(ascii ''loggerId'', JStr (ascii ''myapp'')),
      (ascii ''level'', JStr (ascii ''INFO'')), (ascii ''message'', JStr (ascii ''hello''))])"
    "valid_json (JObj [(ascii ''status'', JStr (ascii ''ok''))])"
    by (simp_all add: valid_str_ascii ascii_inj)
  from id_round_trip [OF v] v show ?thesis
    by (simp add: frame_request_1 frame_result_1) (simp add: result_envelope_def)
qed



end
